theory Spec2Isabelle
  imports Main "HOL-Library.Multiset"
begin

section \<open>Strings and the string built-ins the library calls\<close>

text \<open>
  A JavaScript string is modelled by \<^typ>\<open>string\<close>: each \<^typ>\<open>char\<close> stands for one
  UTF-16 code unit below 256 (the Latin-1 range). The built-ins are modelled on that
  range as ECMAScript defines them there.
\<close>

definition code_unit :: "char \<Rightarrow> nat" where
  "code_unit c = of_char c"

text \<open>
  \<^verbatim>\<open>String.prototype.toLowerCase\<close>: below 256 the upper-case letters are A-Z and
  U+00C0..U+00DE without the multiplication sign U+00D7; each lower-cases to the code
  unit 32 above it.
\<close>

definition lowerChar :: "char \<Rightarrow> char" where
  "lowerChar c =
     (let n = code_unit c in
      if (65 \<le> n \<and> n \<le> 90) \<or> (192 \<le> n \<and> n \<le> 222 \<and> n \<noteq> 215)
      then char_of (n + 32) else c)"

definition toLowerCase :: "string \<Rightarrow> string" where
  "toLowerCase s = map lowerChar s"

text \<open>
  \<^verbatim>\<open>String.prototype.trim\<close> removes leading and trailing WhiteSpace and LineTerminator
  code units: below 256 these are TAB, LF, VT, FF, CR, SPACE and NBSP.
\<close>

definition isSpace :: "char \<Rightarrow> bool" where
  "isSpace c = (code_unit c \<in> {9, 10, 11, 12, 13, 32, 160})"

definition trim :: "string \<Rightarrow> string" where
  "trim s = rev (dropWhile isSpace (rev (dropWhile isSpace s)))"

text \<open>The line terminators that the pattern character \<^verbatim>\<open>.\<close> does not match.\<close>

definition isLineTerminator :: "char \<Rightarrow> bool" where
  "isLineTerminator c = (code_unit c \<in> {10, 13})"

section \<open>Regular expressions\<close>

text \<open>
  The source matches with regular-expression literals. The patterns it uses are built
  from the constructors below; the matcher is the backtracking matcher of ECMAScript
  for them: alternatives are tried left to right, a greedy quantifier tries one more
  iteration before stopping, a lazy one tries stopping first, and an iteration that
  consumes nothing is rejected.
\<close>

datatype regex =
    Chr char                \<comment> \<open>a literal character\<close>
  | Dot                     \<comment> \<open>\<^verbatim>\<open>.\<close>: any character but a line terminator\<close>
  | AnyChar                 \<comment> \<open>\<^verbatim>\<open>[^]\<close>: any character\<close>
  | OneOf "char list"       \<comment> \<open>a character class \<^verbatim>\<open>[...]\<close>\<close>
  | Bol                     \<comment> \<open>\<^verbatim>\<open>^\<close> (no m flag): the start of the input\<close>
  | Eol                     \<comment> \<open>\<^verbatim>\<open>$\<close> (no m flag): the end of the input\<close>
  | Eps                     \<comment> \<open>the empty pattern\<close>
  | Seq regex regex
  | Alt regex regex
  | Star bool regex         \<comment> \<open>\<^verbatim>\<open>r*\<close> when the flag is True (greedy), \<^verbatim>\<open>r*?\<close> otherwise\<close>
  | Group nat regex         \<comment> \<open>the capturing group with this number\<close>

text \<open>
  A matcher state is the current index, the rest of the input from that index, and the
  captures made so far (latest first).
\<close>

type_synonym captures = "(nat \<times> string) list"
type_synonym mstate = "nat \<times> string \<times> captures"

definition oneChar :: "(char \<Rightarrow> bool) \<Rightarrow> mstate \<Rightarrow> mstate list" where
  "oneChar p st =
     (case st of (i, s, cs) \<Rightarrow>
        (case s of [] \<Rightarrow> [] | x # xs \<Rightarrow> if p x then [(Suc i, xs, cs)] else []))"

definition shorter :: "mstate \<Rightarrow> mstate \<Rightarrow> bool" where
  "shorter st st' = (length (fst (snd st')) < length (fst (snd st)))"

text \<open>
  \<open>rmatch r st\<close> lists every way \<open>r\<close> matches at \<open>st\<close>, in the order in which the
  backtracking matcher tries them; the first is the match it reports.
\<close>

function rmatch :: "regex \<Rightarrow> mstate \<Rightarrow> mstate list" where
  "rmatch (Chr c) st = oneChar (\<lambda>x. x = c) st"
| "rmatch Dot st = oneChar (\<lambda>x. \<not> isLineTerminator x) st"
| "rmatch AnyChar st = oneChar (\<lambda>x. True) st"
| "rmatch (OneOf cl) st = oneChar (\<lambda>x. x \<in> set cl) st"
| "rmatch Bol st = (if fst st = 0 then [st] else [])"
| "rmatch Eol st = (if fst (snd st) = [] then [st] else [])"
| "rmatch Eps st = [st]"
| "rmatch (Seq r1 r2) st = concat (map (rmatch r2) (rmatch r1 st))"
| "rmatch (Alt r1 r2) st = rmatch r1 st @ rmatch r2 st"
| "rmatch (Star greedy r) st =
     (let more = concat (map (rmatch (Star greedy r)) (filter (shorter st) (rmatch r st)))
      in if greedy then more @ [st] else st # more)"
| "rmatch (Group k r) st =
     map (\<lambda>st'. (fst st', fst (snd st'),
                  (k, take (fst st' - fst st) (fst (snd st))) # snd (snd st')))
         (rmatch r st)"
  by pat_completeness auto
termination
  by (relation "inv_image (less_than <*lex*> less_than)
                  (\<lambda>(r, st). (size r, length (fst (snd st))))")
     (auto simp: shorter_def)

definition plus :: "bool \<Rightarrow> regex \<Rightarrow> regex" where
  "plus greedy r = Seq r (Star greedy r)"

definition opt :: "regex \<Rightarrow> regex" where
  "opt r = Alt r Eps"

fun seqs :: "regex list \<Rightarrow> regex" where
  "seqs [] = Eps"
| "seqs [r] = r"
| "seqs (r # rs) = Seq r (seqs rs)"

definition lit :: "string \<Rightarrow> regex" where
  "lit s = seqs (map Chr s)"

text \<open>\<^verbatim>\<open>RegExp.prototype.exec\<close> at one start index: the first match there, if any.\<close>

definition matchAt :: "regex \<Rightarrow> nat \<Rightarrow> string \<Rightarrow> mstate option" where
  "matchAt r i s = (case rmatch r (i, s, []) of [] \<Rightarrow> None | st # _ \<Rightarrow> Some st)"

text \<open>
  \<^verbatim>\<open>String.prototype.replace\<close> with a pattern that has the g flag: the input is scanned
  from the left; at each index the pattern is tried; a match is replaced by what the
  replacer gives for the matched text and the captures, and the scan goes on after the
  match (one character further after an empty match); a character at which nothing
  matches is copied.
\<close>

function replaceFrom :: "regex \<Rightarrow> (string \<Rightarrow> captures \<Rightarrow> string) \<Rightarrow> nat \<Rightarrow> string \<Rightarrow> string" where
  "replaceFrom r f i s =
     (case matchAt r i s of
        Some (j, s', cs) \<Rightarrow>
          if length s' < length s
          then f (take (length s - length s') s) cs @ replaceFrom r f j s'
          else f [] cs @ (case s of [] \<Rightarrow> [] | x # xs \<Rightarrow> x # replaceFrom r f (Suc i) xs)
      | None \<Rightarrow> (case s of [] \<Rightarrow> [] | x # xs \<Rightarrow> x # replaceFrom r f (Suc i) xs))"
  by pat_completeness auto
termination
  by (relation "measure (\<lambda>(r, f, i, s). length s)") auto

definition replaceAll :: "regex \<Rightarrow> (string \<Rightarrow> captures \<Rightarrow> string) \<Rightarrow> string \<Rightarrow> string" where
  "replaceAll r f s = replaceFrom r f 0 s"

text \<open>
  A replacement string: literal text and references \<^verbatim>\<open>$n\<close> to capture \<open>n\<close> (the empty
  string when the group did not take part in the match).
\<close>

datatype piece = Txt string | Ref nat

definition capture :: "captures \<Rightarrow> nat \<Rightarrow> string" where
  "capture cs k = (case map_of cs k of Some v \<Rightarrow> v | None \<Rightarrow> [])"

definition template :: "piece list \<Rightarrow> string \<Rightarrow> captures \<Rightarrow> string" where
  "template ps m cs = concat (map (\<lambda>p. case p of Txt t \<Rightarrow> t | Ref k \<Rightarrow> capture cs k) ps)"

section \<open>cleanSlug\<close>

text \<open>
  \<^verbatim>\<open>slug.toLowerCase().replace(/^\/|\/$/g, '').replace(/\//g, '_').trim()\<close>
\<close>

definition edgeSlash :: regex where
  "edgeSlash = Alt (Seq Bol (Chr CHR ''/'')) (Seq (Chr CHR ''/'') Eol)"

definition anySlash :: regex where
  "anySlash = Chr CHR ''/''"

definition cleanSlug :: "string \<Rightarrow> string" where
  "cleanSlug slug =
     trim (replaceAll anySlash (template [Txt ''_''])
            (replaceAll edgeSlash (template [Txt '''']) (toLowerCase slug)))"

section \<open>escapeHtml\<close>

text \<open>
  \<^verbatim>\<open>const map = { '&': '&amp;', '<': '&lt;', '>': '&gt;', '"': '&quot;', "'": '&#039;' };\<close>
  \<^verbatim>\<open>return text.replace(/[&<>"']/g, m => map[m]);\<close>
  The double quote is \<open>CHR 0x22\<close> and the single quote \<open>CHR 0x27\<close>. A replacer that
  returns \<^verbatim>\<open>undefined\<close> (a key missing from the object) inserts the text "undefined".
  The source's \<^verbatim>\<open>map\<close> is named \<open>entityMap\<close> here.
\<close>

definition entityMap :: "(string \<times> string) list" where
  "entityMap =
     [(''&'', ''&amp;''), (''<'', ''&lt;''), (''>'', ''&gt;''),
      ([CHR 0x22], ''&quot;''), ([CHR 0x27], ''&#039;'')]"

definition special :: regex where
  "special = OneOf [CHR ''&'', CHR ''<'', CHR ''>'', CHR 0x22, CHR 0x27]"

definition entityOf :: "string \<Rightarrow> captures \<Rightarrow> string" where
  "entityOf m cs = (case map_of entityMap m of Some e \<Rightarrow> e | None \<Rightarrow> ''undefined'')"

definition escapeHtml :: "string \<Rightarrow> string" where
  "escapeHtml txt = replaceAll special entityOf txt"

section \<open>parseMd\<close>

text \<open>
  The six patterns of \<^verbatim>\<open>parseMd\<close>, in the order of the source. The backquote is
  \<open>CHR 0x60\<close>, carriage return \<open>CHR 0x0D\<close>, line feed \<open>CHR 0x0A\<close>.
  \<^verbatim>\<open>codeblock = /```([^]+?.*?[^]+?[^]+?)```/g\<close>,
  \<^verbatim>\<open>code = /`(.*?)`/g\<close>,
  \<^verbatim>\<open>link = /\[(.*?)\]\((.*?)\)/g\<close>,
  \<^verbatim>\<open>ital = /\*(.*?)\*/g\<close>,
  \<^verbatim>\<open>bold = /\*\*(.*?)\*\*/g\<close>,
  \<^verbatim>\<open>paragraph = /(.+((\r?\n.+)*))/g\<close> (named \<open>paragraph_re\<close> here).
\<close>

definition fence :: regex where
  "fence = lit [CHR 0x60, CHR 0x60, CHR 0x60]"

definition codeblock :: regex where
  "codeblock =
     seqs [fence,
           Group 1 (seqs [plus False AnyChar, Star False Dot, plus False AnyChar, plus False AnyChar]),
           fence]"

definition code :: regex where
  "code = seqs [Chr (CHR 0x60), Group 1 (Star False Dot), Chr (CHR 0x60)]"

definition link :: regex where
  "link =
     seqs [Chr CHR ''['', Group 1 (Star False Dot), Chr CHR '']'',
           Chr CHR ''('', Group 2 (Star False Dot), Chr CHR '')'']"

definition ital :: regex where
  "ital = seqs [Chr CHR ''*'', Group 1 (Star False Dot), Chr CHR ''*'']"

definition bold :: regex where
  "bold = seqs [lit ''**'', Group 1 (Star False Dot), lit ''**'']"

definition paragraph_re :: regex where
  "paragraph_re =
     Group 1 (Seq (plus True Dot)
       (Group 2 (Star True (Group 3 (seqs [opt (Chr (CHR 0x0D)), Chr (CHR 0x0A), plus True Dot])))))"

definition dq :: string where
  "dq = [CHR 0x22]"

text \<open>
  \<^verbatim>\<open>text.replace(codeblock, '<pre><code class="hljs">$1</code></pre>')\<close>
  \<^verbatim>\<open>.replace(code, '<code>$1</code>')\<close>
  \<^verbatim>\<open>.replace(link, '<a href="$2">$1</a>')\<close>
  \<^verbatim>\<open>.replace(ital, '<i>$1</i>')\<close>
  \<^verbatim>\<open>.replace(bold, '<strong>$1</strong>')\<close>
  \<^verbatim>\<open>.replace(paragraph, '<p>$1</p>')\<close>
\<close>

definition parseMd :: "string \<Rightarrow> string" where
  "parseMd txt =
     replaceAll paragraph_re (template [Txt ''<p>'', Ref 1, Txt ''</p>''])
      (replaceAll bold (template [Txt ''<strong>'', Ref 1, Txt ''</strong>''])
        (replaceAll ital (template [Txt ''<i>'', Ref 1, Txt ''</i>''])
          (replaceAll link
              (template [Txt (''<a href='' @ dq), Ref 2, Txt (dq @ ''>''), Ref 1, Txt ''</a>''])
            (replaceAll code (template [Txt ''<code>'', Ref 1, Txt ''</code>''])
              (replaceAll codeblock
                  (template [Txt (''<pre><code class='' @ dq @ ''hljs'' @ dq @ ''>''), Ref 1,
                             Txt ''</code></pre>''])
                txt)))))"

section \<open>Requests, responses and promises\<close>

text \<open>
  The transport (\<^verbatim>\<open>fetch\<close>) is a parameter: a function from the request to what comes
  back. A response carries its status, its body as text, and its body parsed as JSON
  (\<open>None\<close> when the body is not JSON). A promise is modelled by how it settles:
  \<open>Inl\<close> the rejection value, \<open>Inr\<close> the value it resolves with.
\<close>

datatype http_method = GET | POST | PATCH | DELETE

record request =
  r_method :: http_method
  r_url :: string
  r_headers :: "(string \<times> string) list"
  r_body :: "(string \<times> string) list"

datatype 'j fetched = NetworkFailure string | Response nat string "'j option"

datatype rejection =
    StatusError nat       \<comment> \<open>\<^verbatim>\<open>new Error(res.status)\<close>\<close>
  | JsonSyntaxError       \<comment> \<open>\<^verbatim>\<open>res.json()\<close> on a body that is not JSON\<close>
  | BodyText string       \<comment> \<open>\<^verbatim>\<open>reject(msg)\<close> with the body text\<close>
  | TransportError string \<comment> \<open>\<^verbatim>\<open>fetch\<close> itself rejecting\<close>
  | TypeError             \<comment> \<open>a property read on \<^verbatim>\<open>undefined\<close>\<close>

text \<open>\<^verbatim>\<open>res.ok\<close>: the status is in the range 200-299.\<close>

definition ok :: "nat \<Rightarrow> bool" where
  "ok status = (200 \<le> status \<and> status \<le> 299)"

text \<open>
  \<^verbatim>\<open>fetch(url).then((res) => { if (!res.ok) return Promise.reject(new Error(res.status));\<close>
  \<^verbatim>\<open>return res.json(); })\<close>. The result is the request issued and how the promise settles.
\<close>

definition getJsonData :: "(request \<Rightarrow> 'j fetched) \<Rightarrow> string \<Rightarrow> request \<times> (rejection + 'j)" where
  "getJsonData fetch url =
     (let rq = \<lparr>r_method = GET, r_url = url, r_headers = [], r_body = []\<rparr> in
      (rq,
       case fetch rq of
         NetworkFailure e \<Rightarrow> Inl (TransportError e)
       | Response status txt json \<Rightarrow>
           if \<not> ok status then Inl (StatusError status)
           else (case json of None \<Rightarrow> Inl JsonSyntaxError | Some v \<Rightarrow> Inr v)))"

text \<open>
  \<^verbatim>\<open>ajax(url, method, body)\<close>: the keys of \<^verbatim>\<open>body\<close> are appended to a form in order and sent
  as URLSearchParams; \<^verbatim>\<open>if (!res.ok) return res.text().then(msg => reject(msg));\<close>
  \<^verbatim>\<open>return resolve();\<close> and \<^verbatim>\<open>.catch(reject)\<close>.
\<close>

definition ajax ::
  "(request \<Rightarrow> 'j fetched) \<Rightarrow> string \<Rightarrow> http_method \<Rightarrow> (string \<times> string) list
     \<Rightarrow> request \<times> (rejection + unit)" where
  "ajax fetch url m body =
     (let rq = \<lparr>r_method = m, r_url = url,
                r_headers = [(''Content-Type'', ''application/x-www-form-urlencoded'')],
                r_body = body\<rparr> in
      (rq,
       case fetch rq of
         NetworkFailure e \<Rightarrow> Inl (TransportError e)
       | Response status txt json \<Rightarrow> if \<not> ok status then Inl (BodyText txt) else Inr ()))"

section \<open>The client object\<close>

type_synonym addr = nat

record jamments =
  endpoint :: string
  cachedFilesURI :: string
  commentsHash :: "(string \<times> addr) list"

record config =
  cfg_endpoint :: "string option"
  cfg_cachedFilesURI :: "string option"

text \<open>
  A value that is a string or missing is falsy when it is missing
  (\<^verbatim>\<open>null\<close>, \<^verbatim>\<open>undefined\<close>) or the empty string.
\<close>

definition falsy :: "string option \<Rightarrow> bool" where
  "falsy v = (v = None \<or> v = Some [])"

datatype ctor_error = CtorTypeError string

definition constructor :: "config option \<Rightarrow> ctor_error + jamments" where
  "constructor cfg =
     (case cfg of
        None \<Rightarrow> Inl (CtorTypeError ''Both endpoint and cachedFilesURI must be defined'')
      | Some c \<Rightarrow>
          if falsy (cfg_endpoint c) \<or> falsy (cfg_cachedFilesURI c)
          then Inl (CtorTypeError ''Both endpoint and cachedFilesURI must be defined'')
          else Inr \<lparr>endpoint = the (cfg_endpoint c),
                    cachedFilesURI = the (cfg_cachedFilesURI c),
                    commentsHash = []\<rparr>)"

subsection \<open>The mutating operations\<close>

text \<open>
  Values appended to a form are converted to strings: a boolean becomes "true" or
  "false"; the optional \<^verbatim>\<open>parentId\<close> may be a string, \<^verbatim>\<open>null\<close> (sent as "null") or left out
  (\<^verbatim>\<open>undefined\<close>, sent as "undefined").
\<close>

datatype jsarg = JsString string | JsNull | JsUndefined

definition strOfArg :: "jsarg \<Rightarrow> string" where
  "strOfArg v = (case v of JsString s \<Rightarrow> s | JsNull \<Rightarrow> ''null'' | JsUndefined \<Rightarrow> ''undefined'')"

definition strOfBool :: "bool \<Rightarrow> string" where
  "strOfBool b = (if b then ''true'' else ''false'')"

definition postComment ::
  "(request \<Rightarrow> 'j fetched) \<Rightarrow> jamments \<Rightarrow> string \<Rightarrow> string \<Rightarrow> string \<Rightarrow> string \<Rightarrow> jsarg
     \<Rightarrow> request \<times> (rejection + unit)" where
  "postComment fetch this slug comment name email parentId =
     ajax fetch (endpoint this @ ''/comment/'') POST
       [(''slug'', slug), (''comment'', comment), (''name'', name), (''email'', email),
        (''parent_id'', strOfArg parentId)]"

definition updateComment ::
  "(request \<Rightarrow> 'j fetched) \<Rightarrow> jamments \<Rightarrow> string \<Rightarrow> string \<Rightarrow> string
     \<Rightarrow> request \<times> (rejection + unit)" where
  "updateComment fetch this commentId secret comment =
     ajax fetch (endpoint this @ ''/comment/'' @ commentId) PATCH
       [(''comment'', comment), (''user_secret'', secret)]"

definition deleteComment ::
  "(request \<Rightarrow> 'j fetched) \<Rightarrow> jamments \<Rightarrow> string \<Rightarrow> string \<Rightarrow> request \<times> (rejection + unit)" where
  "deleteComment fetch this commentId secret =
     ajax fetch (endpoint this @ ''/comment/'' @ commentId) DELETE [(''user_secret'', secret)]"

definition validateComment ::
  "(request \<Rightarrow> 'j fetched) \<Rightarrow> jamments \<Rightarrow> string \<Rightarrow> string \<Rightarrow> request \<times> (rejection + unit)" where
  "validateComment fetch this commentId secret =
     ajax fetch (endpoint this @ ''/comment/validate/'' @ commentId @ ''/'') POST
       [(''user_secret'', secret)]"

definition updateNewCommentsSubscription ::
  "(request \<Rightarrow> 'j fetched) \<Rightarrow> jamments \<Rightarrow> string \<Rightarrow> string \<Rightarrow> string \<Rightarrow> bool
     \<Rightarrow> request \<times> (rejection + unit)" where
  "updateNewCommentsSubscription fetch this articleId userId secret subscribe =
     ajax fetch (endpoint this @ ''/notification/article/'' @ articleId @ ''/'') PATCH
       [(''subscribe'', strOfBool subscribe), (''user_id'', userId), (''user_secret'', secret)]"

definition getSiteInfos :: "(request \<Rightarrow> 'j fetched) \<Rightarrow> jamments \<Rightarrow> request \<times> (rejection + 'j)" where
  "getSiteInfos fetch this =
     getJsonData fetch (endpoint this @ ''/'' @ cachedFilesURI this @ ''/site.json'')"

section \<open>Comments and the object store\<close>

text \<open>
  A comment record as the cache file holds it. Identifiers are strings
  (\<^verbatim>\<open>@param { String } id\<close>); \<^verbatim>\<open>parent_id\<close> is \<open>None\<close> for \<^verbatim>\<open>null\<close>.
  The source field \<^verbatim>\<open>id\<close> is named \<open>comment_id\<close> here. The content fields (text,
  author name, email) play no part in \<^verbatim>\<open>getComments\<close> and are left out.

  \<^verbatim>\<open>submitted_at\<close> is what the file holds, read through \<^verbatim>\<open>new Date(submitted_at)\<close>:
  \<open>Millis t\<close> is a number of milliseconds since the epoch, or a date string that
  parses to it; \<open>Unparseable\<close> is a value that \<^verbatim>\<open>Date\<close> cannot parse. \<open>timeValue\<close> is the
  time value of the \<^verbatim>\<open>Date\<close> object: \<open>None\<close> (NaN, an Invalid Date) for an unparseable
  value and for a number beyond 8.64e15 milliseconds either side of the epoch.
\<close>

datatype stamp = Millis int | Unparseable

definition timeValue :: "stamp \<Rightarrow> int option" where
  "timeValue s =
     (case s of
        Millis t \<Rightarrow> if - 8640000000000000 \<le> t \<and> t \<le> 8640000000000000 then Some t else None
      | Unparseable \<Rightarrow> None)"

record comment =
  comment_id :: string
  parent_id :: "string option"
  submitted_at :: stamp

text \<open>
  The comment objects are shared: the array, the index and the \<^verbatim>\<open>children\<close> arrays hold
  references to the same objects. The store maps an address to the object there;
  \<open>fresh\<close> is the next unused address.
\<close>

record node = comment +
  children :: "addr list"

record heap =
  objs :: "addr \<Rightarrow> node"
  fresh :: addr

definition parsed :: "comment \<Rightarrow> node" where
  "parsed c = \<lparr>comment_id = comment_id c, parent_id = parent_id c,
               submitted_at = submitted_at c, children = []\<rparr>"

text \<open>
  \<^verbatim>\<open>res.json()\<close> builds one new object per element of the array; the array holds their
  addresses in the order of the file.
\<close>

definition allocArray :: "comment list \<Rightarrow> heap \<Rightarrow> addr list \<times> heap" where
  "allocArray cs h =
     ([fresh h ..< fresh h + length cs],
      \<lparr>objs = (\<lambda>a. if fresh h \<le> a \<and> a < fresh h + length cs
                     then parsed (cs ! (a - fresh h)) else objs h a),
       fresh = fresh h + length cs\<rparr>)"

subsection \<open>Array.prototype.sort\<close>

text \<open>
  \<^verbatim>\<open>(a, b) => { if (new Date(a.submitted_at) < new Date(b.submitted_at)) return -1; return 1; }\<close>
\<close>

text \<open>
  \<^verbatim>\<open><\<close> on two \<^verbatim>\<open>Date\<close> objects compares their time values as numbers; a comparison with
  NaN is false.
\<close>

definition dateLess :: "stamp \<Rightarrow> stamp \<Rightarrow> bool" where
  "dateLess s t =
     (case timeValue s of
        None \<Rightarrow> False
      | Some x \<Rightarrow> (case timeValue t of None \<Rightarrow> False | Some y \<Rightarrow> x < y))"

definition compareFn :: "'a comment_scheme \<Rightarrow> 'b comment_scheme \<Rightarrow> int" where
  "compareFn a b = (if dateLess (submitted_at a) (submitted_at b) then - 1 else 1)"

text \<open>
  \<^verbatim>\<open>comments.sort(...)\<close> is the host's sort. ECMAScript fixes its result (a stable
  sort) only for a consistent comparator, which has \<^verbatim>\<open>comparefn(a, a) = 0\<close>; for any
  other comparator the order is implementation-defined. \<open>compareFn\<close> never returns 0,
  so the model keeps the way the host consults the comparator as a parameter. A host
  sorts by insertion into the sorted prefix from its right end: the item moves left
  past an element as long as the comparator says that the item goes before it. A
  comparator says so in two ways, which agree when it is consistent:
  \<open>MovesOnNegative\<close> reads \<^verbatim>\<open>comparefn(item, element) < 0\<close> (the test of V8's insertion
  step), \<open>MovesOnPositive\<close> reads \<^verbatim>\<open>comparefn(element, item) > 0\<close> (the test of
  SpiderMonkey's insertion sort, which stops at \<^verbatim>\<open>comparefn(element, item) <= 0\<close>).
\<close>

datatype engine = MovesOnNegative | MovesOnPositive

definition goesBefore :: "engine \<Rightarrow> ('a \<Rightarrow> 'a \<Rightarrow> int) \<Rightarrow> 'a \<Rightarrow> 'a \<Rightarrow> bool" where
  "goesBefore e cmp item element =
     (case e of MovesOnNegative \<Rightarrow> cmp item element < 0
              | MovesOnPositive \<Rightarrow> cmp element item > 0)"

text \<open>The sorted prefix is given right end first.\<close>

fun insertBack :: "engine \<Rightarrow> ('a \<Rightarrow> 'a \<Rightarrow> int) \<Rightarrow> 'a \<Rightarrow> 'a list \<Rightarrow> 'a list" where
  "insertBack e cmp item [] = [item]"
| "insertBack e cmp item (y # ys) =
     (if goesBefore e cmp item y then y # insertBack e cmp item ys else item # y # ys)"

definition arraySort :: "engine \<Rightarrow> ('a \<Rightarrow> 'a \<Rightarrow> int) \<Rightarrow> 'a list \<Rightarrow> 'a list" where
  "arraySort e cmp xs = rev (foldl (\<lambda>prefix item. insertBack e cmp item prefix) [] xs)"

subsection \<open>getComments\<close>

text \<open>
  An object used as a table: assigning to a key replaces the value of a key that is
  there and adds a key that is not. Reading a key that is absent gives \<^verbatim>\<open>undefined\<close>,
  or a property inherited from \<^verbatim>\<open>Object.prototype\<close>, which has no \<^verbatim>\<open>children\<close>: the
  lookup \<open>map_of\<close> gives \<open>None\<close> for both, and \<open>getCommentById\<close> below tells them apart.
  Assigning to the key \<^verbatim>\<open>__proto__\<close> is outside the model.
\<close>

fun assign :: "(string \<times> addr) list \<Rightarrow> string \<Rightarrow> addr \<Rightarrow> (string \<times> addr) list" where
  "assign [] k v = [(k, v)]"
| "assign ((k', v') # kvs) k v =
     (if k' = k then (k, v) # kvs else (k', v') # assign kvs k v)"

text \<open>
  \<^verbatim>\<open>this.commentsHash[comment.id] = Object.assign(comment, { children: [] });\<close>
\<close>

definition register :: "(string \<times> addr) list \<times> heap \<Rightarrow> addr \<Rightarrow> (string \<times> addr) list \<times> heap" where
  "register st c =
     (case st of (k, h) \<Rightarrow>
        (assign k (comment_id (objs h c)) c,
         h\<lparr>objs := (objs h)(c := (objs h c)\<lparr>children := []\<rparr>)\<rparr>))"

text \<open>\<^verbatim>\<open>parent.children.push(comment)\<close>\<close>

definition push :: "addr \<Rightarrow> addr \<Rightarrow> heap \<Rightarrow> heap" where
  "push p c h = h\<lparr>objs := (objs h)(p := (objs h p)\<lparr>children := children (objs h p) @ [c]\<rparr>)\<rparr>"

text \<open>
  \<^verbatim>\<open>comments.forEach((comment) => { if (!comment.parent_id) return;\<close>
  \<^verbatim>\<open>this.commentsHash[comment.parent_id].children.push(comment); });\<close>
  Reading \<^verbatim>\<open>children\<close> of an absent entry throws a TypeError; what was pushed before
  stays pushed.
\<close>

fun attach :: "(string \<times> addr) list \<Rightarrow> addr list \<Rightarrow> heap \<Rightarrow> rejection option \<times> heap" where
  "attach k [] h = (None, h)"
| "attach k (c # cs) h =
     (if falsy (parent_id (objs h c)) then attach k cs h
      else (case map_of k (the (parent_id (objs h c))) of
              None \<Rightarrow> (Some TypeError, h)
            | Some p \<Rightarrow> attach k cs (push p c h)))"

text \<open>
  \<^verbatim>\<open>comments.reduce((acc, curr) => { if (!curr.parent_id) acc.push(curr); return acc; }, [])\<close>
\<close>

definition rootsOf :: "heap \<Rightarrow> addr list \<Rightarrow> addr list" where
  "rootsOf h arr =
     foldl (\<lambda>acc curr. if falsy (parent_id (objs h curr)) then acc @ [curr] else acc) [] arr"

text \<open>The callback of \<^verbatim>\<open>getComments\<close>, run on the parsed array.\<close>

definition assemble ::
  "engine \<Rightarrow> comment list \<Rightarrow> jamments \<times> heap \<Rightarrow> (rejection + addr list) \<times> jamments \<times> heap" where
  "assemble e cs st =
     (case st of (this, h) \<Rightarrow>
      (case allocArray cs h of (arr, h1) \<Rightarrow>
        (let comments = arraySort e (\<lambda>a b. compareFn (objs h1 a) (objs h1 b)) arr in
         (case foldl register (commentsHash this, h1) comments of (k2, h2) \<Rightarrow>
           (let this' = this\<lparr>commentsHash := k2\<rparr> in
            (case attach k2 comments h2 of
               (Some err, h3) \<Rightarrow> (Inl err, this', h3)
             | (None, h3) \<Rightarrow> (Inr (rootsOf h3 comments), this', h3)))))))"

definition commentsUrl :: "jamments \<Rightarrow> string \<Rightarrow> string" where
  "commentsUrl this slug =
     endpoint this @ ''/'' @ cachedFilesURI this @ ''/'' @ cleanSlug slug @ ''.json''"

definition getComments ::
  "engine \<Rightarrow> (request \<Rightarrow> comment list fetched) \<Rightarrow> jamments \<times> heap \<Rightarrow> string
     \<Rightarrow> request \<times> (rejection + addr list) \<times> jamments \<times> heap" where
  "getComments e fetch st slug =
     (case getJsonData fetch (commentsUrl (fst st) slug) of
        (rq, Inl err) \<Rightarrow> (rq, Inl err, st)
      | (rq, Inr comments) \<Rightarrow> (rq, assemble e comments st))"

text \<open>
  \<^verbatim>\<open>return this.commentsHash[id];\<close> The index is a plain object, so a key that it does
  not hold itself is looked up in \<^verbatim>\<open>Object.prototype\<close>: the call gives the comment, or
  an inherited property (a function, or the prototype itself), or \<^verbatim>\<open>undefined\<close>.
\<close>

datatype property = Comment addr | Inherited | Undefined

definition protoKeys :: "string list" where
  "protoKeys =
     [''constructor'', ''hasOwnProperty'', ''isPrototypeOf'', ''propertyIsEnumerable'',
      ''toLocaleString'', ''toString'', ''valueOf'', ''__proto__'', ''__defineGetter__'',
      ''__defineSetter__'', ''__lookupGetter__'', ''__lookupSetter__'']"

definition getCommentById :: "jamments \<Rightarrow> string \<Rightarrow> property" where
  "getCommentById this k =
     (case map_of (commentsHash this) k of
        Some a \<Rightarrow> Comment a
      | None \<Rightarrow> if k \<in> set protoKeys then Inherited else Undefined)"

section \<open>The specification's wording, as definitions\<close>

text \<open>
  Slug normalisation as the specification words it: lower-case the input, strip
  exactly one leading and one trailing slash if present, replace every remaining
  slash with an underscore, then trim surrounding whitespace.
\<close>

definition stripLeadingSlash :: "string \<Rightarrow> string" where
  "stripLeadingSlash s = (case s of [] \<Rightarrow> [] | c # cs \<Rightarrow> if c = CHR ''/'' then cs else s)"

definition stripTrailingSlash :: "string \<Rightarrow> string" where
  "stripTrailingSlash s = (if s \<noteq> [] \<and> last s = CHR ''/'' then butlast s else s)"

definition slashToUnderscore :: "string \<Rightarrow> string" where
  "slashToUnderscore s = map (\<lambda>c. if c = CHR ''/'' then CHR ''_'' else c) s"

definition cleanSlug_spec :: "string \<Rightarrow> string" where
  "cleanSlug_spec s =
     trim (slashToUnderscore (stripTrailingSlash (stripLeadingSlash (toLowerCase s))))"

text \<open>
  HTML escaping as the specification words it: each of the five characters is
  replaced by its entity, every other character stays, each character on its own.
\<close>

definition entity :: "char \<Rightarrow> string" where
  "entity c =
     (if c = CHR ''&'' then ''&amp;''
      else if c = CHR ''<'' then ''&lt;''
      else if c = CHR ''>'' then ''&gt;''
      else if c = CHR 0x22 then ''&quot;''
      else if c = CHR 0x27 then ''&#039;''
      else [c])"

definition escapeHtml_spec :: "string \<Rightarrow> string" where
  "escapeHtml_spec s = concat (map entity s)"

text \<open>
  How a mutating call settles according to the specification: a status outside
  200-299 rejects with the body text, a status inside resolves with no payload.
\<close>

definition settles_spec :: "nat \<Rightarrow> string \<Rightarrow> rejection + unit" where
  "settles_spec status txt =
     (if 200 \<le> status \<and> status \<le> 299 then Inr () else Inl (BodyText txt))"

section \<open>The forest and the index, as the claims speak of them\<close>

text \<open>The addresses of the objects parsed from the array \<open>cs\<close>, in the order of the file.\<close>

definition newAddrs :: "heap \<Rightarrow> comment list \<Rightarrow> addr list" where
  "newAddrs h cs = [fresh h ..< fresh h + length cs]"

text \<open>
  Every parent reference that the code follows (a \<^verbatim>\<open>parent_id\<close> that is not falsy)
  names the id of a comment of the same array.
\<close>

definition parentsResolve :: "comment list \<Rightarrow> bool" where
  "parentsResolve cs =
     (\<forall>c \<in> set cs. \<not> falsy (parent_id c) \<longrightarrow> (\<exists>p \<in> set cs. comment_id p = the (parent_id c)))"

text \<open>Every \<^verbatim>\<open>submitted_at\<close> of the array is a valid date.\<close>

definition validDates :: "comment list \<Rightarrow> bool" where
  "validDates cs = (\<forall>c \<in> set cs. timeValue (submitted_at c) \<noteq> None)"

text \<open>
  \<open>notAfter s t\<close>: both are valid dates and the first is not later than the second
  (\<^verbatim>\<open>a.submitted_at <= b.submitted_at\<close>). \<open>sameTime s t\<close>: both are valid dates with
  the same time value.
\<close>

definition notAfter :: "stamp \<Rightarrow> stamp \<Rightarrow> bool" where
  "notAfter s t =
     (case timeValue s of
        None \<Rightarrow> False
      | Some x \<Rightarrow> (case timeValue t of None \<Rightarrow> False | Some y \<Rightarrow> x \<le> y))"

definition sameTime :: "stamp \<Rightarrow> stamp \<Rightarrow> bool" where
  "sameTime s t =
     (case timeValue s of
        None \<Rightarrow> False
      | Some x \<Rightarrow> (case timeValue t of None \<Rightarrow> False | Some y \<Rightarrow> x = y))"

text \<open>
  A sibling list is chronological when every comment is not after each comment
  that follows it; its ties are in input order when, of two comments with the same
  time, the one earlier in the file (the smaller address) comes first.
\<close>

definition chronological :: "heap \<Rightarrow> addr list \<Rightarrow> bool" where
  "chronological h siblings =
     sorted_wrt (\<lambda>a b. notAfter (submitted_at (objs h a)) (submitted_at (objs h b))) siblings"

definition tiesInInputOrder :: "heap \<Rightarrow> addr list \<Rightarrow> bool" where
  "tiesInInputOrder h siblings =
     sorted_wrt (\<lambda>a b. sameTime (submitted_at (objs h a)) (submitted_at (objs h b)) \<longrightarrow> a < b)
       siblings"

text \<open>The fields of the comment record that an object of the store carries.\<close>

definition commentOf :: "node \<Rightarrow> comment" where
  "commentOf n = \<lparr>comment_id = comment_id n, parent_id = parent_id n,
                  submitted_at = submitted_at n\<rparr>"


text \<open>
  The nodes of a forest, level by level: its roots, their children, the children of
  those, and so on down to a depth.
\<close>

fun level :: "heap \<Rightarrow> addr list \<Rightarrow> nat \<Rightarrow> addr list" where
  "level h roots 0 = roots"
| "level h roots (Suc n) = concat (map (\<lambda>p. children (objs h p)) (level h roots n))"

definition forestNodes :: "heap \<Rightarrow> addr list \<Rightarrow> nat \<Rightarrow> addr list" where
  "forestNodes h roots depth = concat (map (level h roots) [0 ..< Suc depth])"

text \<open>
  Every chain of parent references ends at a comment without a parent: following
  \<^verbatim>\<open>parent_id\<close> from \<open>c\<close>, through any comment of the array that carries the referenced id,
  reaches a comment whose \<^verbatim>\<open>parent_id\<close> is falsy within \<open>n\<close> steps.
\<close>

fun endsWithin :: "comment list \<Rightarrow> nat \<Rightarrow> comment \<Rightarrow> bool" where
  "endsWithin cs 0 c = falsy (parent_id c)"
| "endsWithin cs (Suc n) c =
     (falsy (parent_id c) \<or>
      (\<forall>p \<in> set cs. comment_id p = the (parent_id c) \<longrightarrow> endsWithin cs n p))"

definition chainsEnd :: "comment list \<Rightarrow> bool" where
  "chainsEnd cs = (\<forall>c \<in> set cs. endsWithin cs (length cs) c)"

text \<open>The parts of what \<open>getComments\<close> returns.\<close>

definition requestOf :: "request \<times> (rejection + addr list) \<times> jamments \<times> heap \<Rightarrow> request" where
  "requestOf r = fst r"

definition outcomeOf :: "request \<times> (rejection + addr list) \<times> jamments \<times> heap \<Rightarrow> rejection + addr list" where
  "outcomeOf r = fst (snd r)"

definition clientAfter :: "request \<times> (rejection + addr list) \<times> jamments \<times> heap \<Rightarrow> jamments" where
  "clientAfter r = fst (snd (snd r))"

definition heapAfter :: "request \<times> (rejection + addr list) \<times> jamments \<times> heap \<Rightarrow> heap" where
  "heapAfter r = snd (snd (snd r))"

section \<open>Auxiliary notions for the proofs about getComments\<close>

text \<open>The store once the array is parsed, the array once sorted, the index once the
  first loop has run.\<close>

definition parsedHeap :: "heap \<Rightarrow> comment list \<Rightarrow> heap" where
  "parsedHeap h cs = snd (allocArray cs h)"

definition sortedAddrs :: "engine \<Rightarrow> heap \<Rightarrow> comment list \<Rightarrow> addr list" where
  "sortedAddrs e h cs =
     arraySort e (\<lambda>a b. compareFn (objs (parsedHeap h cs) a) (objs (parsedHeap h cs) b))
       (newAddrs h cs)"

definition indexAfter :: "engine \<Rightarrow> jamments \<Rightarrow> heap \<Rightarrow> comment list \<Rightarrow> (string \<times> addr) list" where
  "indexAfter e this h cs =
     foldl (\<lambda>k c. assign k (comment_id (objs (parsedHeap h cs) c)) c) (commentsHash this)
       (sortedAddrs e h cs)"

text \<open>Where the second loop puts a comment: \<open>None\<close> for a root, else the parent found in the index.\<close>

definition placeOf :: "(string \<times> addr) list \<Rightarrow> heap \<Rightarrow> addr \<Rightarrow> addr option" where
  "placeOf k h c =
     (if falsy (parent_id (objs h c)) then None else map_of k (the (parent_id (objs h c))))"

definition placeIn :: "engine \<Rightarrow> jamments \<Rightarrow> heap \<Rightarrow> comment list \<Rightarrow> addr \<Rightarrow> addr option" where
  "placeIn e this h cs = placeOf (indexAfter e this h cs) (parsedHeap h cs)"

text \<open>A comment is at depth \<open>k\<close> when \<open>k\<close> steps to the parent reach a root.\<close>

fun atDepth :: "(addr \<Rightarrow> addr option) \<Rightarrow> nat \<Rightarrow> addr \<Rightarrow> bool" where
  "atDepth place 0 a = (place a = None)"
| "atDepth place (Suc k) a = (case place a of None \<Rightarrow> False | Some p \<Rightarrow> atDepth place k p)"

text \<open>The request that \<open>getComments\<close> issues.\<close>

definition commentsRequest :: "jamments \<Rightarrow> string \<Rightarrow> request" where
  "commentsRequest this slug =
     \<lparr>r_method = GET, r_url = commentsUrl this slug, r_headers = [], r_body = []\<rparr>"

section \<open>Example data\<close>

definition exampleConfig :: config where
  "exampleConfig =
     \<lparr>cfg_endpoint = Some ''https://api.example.com'', cfg_cachedFilesURI = Some ''static''\<rparr>"

definition exampleClient :: jamments where
  "exampleClient =
     \<lparr>endpoint = ''https://api.example.com'', cachedFilesURI = ''static'', commentsHash = []\<rparr>"

definition emptyHeap :: heap where
  "emptyHeap = \<lparr>objs = (\<lambda>a. parsed \<lparr>comment_id = [], parent_id = None, submitted_at = Millis 0\<rparr>),
                 fresh = 0\<rparr>"

definition offline :: "request \<Rightarrow> comment list fetched" where
  "offline rq = NetworkFailure ''offline''"

definition serverError :: "request \<Rightarrow> comment list fetched" where
  "serverError rq = Response 500 ''comment is empty'' None"

definition accepted :: "request \<Rightarrow> comment list fetched" where
  "accepted rq = Response 204 [] None"

text \<open>A thread of five comments, out of order in the file, with two replies to one comment.\<close>

definition exampleThread :: "comment list" where
  "exampleThread =
     [\<lparr>comment_id = ''c'', parent_id = Some ''a'', submitted_at = Millis 30\<rparr>,
      \<lparr>comment_id = ''b'', parent_id = Some ''a'', submitted_at = Millis 20\<rparr>,
      \<lparr>comment_id = ''a'', parent_id = None, submitted_at = Millis 10\<rparr>,
      \<lparr>comment_id = ''d'', parent_id = Some ''b'', submitted_at = Millis 20\<rparr>,
      \<lparr>comment_id = ''e'', parent_id = None, submitted_at = Millis 10\<rparr>]"

definition exampleServer :: "request \<Rightarrow> comment list fetched" where
  "exampleServer rq = Response 200 [] (Some exampleThread)"

definition exampleCall :: "request \<times> (rejection + addr list) \<times> jamments \<times> heap" where
  "exampleCall = getComments MovesOnNegative exampleServer (exampleClient, emptyHeap) ''post''"

text \<open>Two root comments with the same timestamp.\<close>

definition tieThread :: "comment list" where
  "tieThread =
     [\<lparr>comment_id = ''a'', parent_id = None, submitted_at = Millis 5\<rparr>,
      \<lparr>comment_id = ''b'', parent_id = None, submitted_at = Millis 5\<rparr>]"

definition tieServer :: "request \<Rightarrow> comment list fetched" where
  "tieServer rq = Response 200 [] (Some tieThread)"

definition tieCall :: "request \<times> (rejection + addr list) \<times> jamments \<times> heap" where
  "tieCall = getComments MovesOnPositive tieServer (exampleClient, emptyHeap) ''post''"

text \<open>
  A root whose timestamp is a number beyond the range of \<^verbatim>\<open>Date\<close>, before a root with
  a valid one.
\<close>

definition lateThread :: "comment list" where
  "lateThread =
     [\<lparr>comment_id = ''x'', parent_id = None, submitted_at = Millis 9000000000000000\<rparr>,
      \<lparr>comment_id = ''y'', parent_id = None, submitted_at = Millis 5\<rparr>]"

definition lateServer :: "request \<Rightarrow> comment list fetched" where
  "lateServer rq = Response 200 [] (Some lateThread)"

definition lateCall :: "request \<times> (rejection + addr list) \<times> jamments \<times> heap" where
  "lateCall = getComments MovesOnNegative lateServer (exampleClient, emptyHeap) ''post''"

text \<open>
  Two comments with valid dates around one whose \<^verbatim>\<open>submitted_at\<close> does not parse, all
  three roots; the later of the valid ones comes first in the file.
\<close>

definition strayThread :: "comment list" where
  "strayThread =
     [\<lparr>comment_id = ''x'', parent_id = None, submitted_at = Millis 10\<rparr>,
      \<lparr>comment_id = ''y'', parent_id = None, submitted_at = Unparseable\<rparr>,
      \<lparr>comment_id = ''z'', parent_id = None, submitted_at = Millis 5\<rparr>]"

definition strayServer :: "request \<Rightarrow> comment list fetched" where
  "strayServer rq = Response 200 [] (Some strayThread)"

definition strayCall :: "request \<times> (rejection + addr list) \<times> jamments \<times> heap" where
  "strayCall = getComments MovesOnNegative strayServer (exampleClient, emptyHeap) ''post''"

text \<open>
  Two calls on one client: the first fetches comment "p"; the second fetches a reply
  to "p" without "p" itself.
\<close>

definition replyBatch :: "comment list" where
  "replyBatch = [\<lparr>comment_id = ''r'', parent_id = Some ''p'', submitted_at = Millis 2\<rparr>]"

definition parentBatch :: "comment list" where
  "parentBatch = [\<lparr>comment_id = ''p'', parent_id = None, submitted_at = Millis 1\<rparr>]"

definition parentServer :: "request \<Rightarrow> comment list fetched" where
  "parentServer rq = Response 200 [] (Some parentBatch)"

definition replyServer :: "request \<Rightarrow> comment list fetched" where
  "replyServer rq = Response 200 [] (Some replyBatch)"

definition parentCall :: "request \<times> (rejection + addr list) \<times> jamments \<times> heap" where
  "parentCall = getComments MovesOnNegative parentServer (exampleClient, emptyHeap) ''post''"

definition replyCall :: "request \<times> (rejection + addr list) \<times> jamments \<times> heap" where
  "replyCall =
     getComments MovesOnNegative replyServer (clientAfter parentCall, heapAfter parentCall) ''post''"

text \<open>One comment that names itself as its parent.\<close>

definition selfThread :: "comment list" where
  "selfThread = [\<lparr>comment_id = ''a'', parent_id = Some ''a'', submitted_at = Millis 1\<rparr>]"

definition selfServer :: "request \<Rightarrow> comment list fetched" where
  "selfServer rq = Response 200 [] (Some selfThread)"

definition selfCall :: "request \<times> (rejection + addr list) \<times> jamments \<times> heap" where
  "selfCall = getComments MovesOnNegative selfServer (exampleClient, emptyHeap) ''post''"







section \<open>Properties of the string functions\<close>

declare replaceFrom.simps [simp del]

lemma matchAt_oneChar:
  assumes "\<And>st. rmatch r st = oneChar p st"
  shows "matchAt r i s = (case s of [] \<Rightarrow> None | c # cs \<Rightarrow> if p c then Some (Suc i, cs, []) else None)"
  by (simp add: matchAt_def assms oneChar_def split: list.splits)

lemma replaceFrom_oneChar:
  assumes "\<And>st. rmatch r st = oneChar p st"
  shows "replaceFrom r f i s = concat (map (\<lambda>c. if p c then f [c] [] else [c]) s)"
proof (induction s arbitrary: i)
  case Nil
  show ?case
    by (subst replaceFrom.simps) (simp add: matchAt_oneChar [OF assms])
next
  case (Cons c cs)
  show ?case
    by (subst replaceFrom.simps) (simp add: matchAt_oneChar [OF assms] Cons.IH)
qed

lemma replacer_entity:
  "(if c \<in> set [CHR ''&'', CHR ''<'', CHR ''>'', CHR 0x22, CHR 0x27] then entityOf [c] [] else [c])
     = entity c"
  by (auto simp: entityOf_def entityMap_def entity_def)

lemma escapeHtml_eq_spec: "escapeHtml s = escapeHtml_spec s"
proof -
  have "escapeHtml s =
        concat (map (\<lambda>c. if c \<in> set [CHR ''&'', CHR ''<'', CHR ''>'', CHR 0x22, CHR 0x27]
                          then entityOf [c] [] else [c]) s)"
    unfolding escapeHtml_def replaceAll_def special_def
    by (rule replaceFrom_oneChar) simp
  also have "\<dots> = concat (map entity s)"
    by (simp only: replacer_entity)
  finally show ?thesis by (simp add: escapeHtml_spec_def)
qed

lemma escapeHtml_append: "escapeHtml (s @ t) = escapeHtml s @ escapeHtml t"
  by (simp add: escapeHtml_eq_spec escapeHtml_spec_def)

lemma replace_anySlash: "replaceAll anySlash (template [Txt ''_'']) s = slashToUnderscore s"
proof -
  have "replaceAll anySlash (template [Txt ''_'']) s =
        concat (map (\<lambda>c. if c = CHR ''/'' then template [Txt ''_''] [c] [] else [c]) s)"
    unfolding replaceAll_def anySlash_def
    by (rule replaceFrom_oneChar) simp
  also have "\<dots> = slashToUnderscore s"
    by (induction s) (simp_all add: slashToUnderscore_def template_def)
  finally show ?thesis .
qed

lemma matchAt_edgeSlash_Nil: "matchAt edgeSlash i [] = None"
  by (simp add: matchAt_def edgeSlash_def oneChar_def)

lemma matchAt_edgeSlash_0:
  "matchAt edgeSlash 0 (c # cs) = (if c = CHR ''/'' then Some (Suc 0, cs, []) else None)"
  by (simp add: matchAt_def edgeSlash_def oneChar_def)

lemma matchAt_edgeSlash_Suc:
  "matchAt edgeSlash (Suc i) (c # cs) =
     (if c = CHR ''/'' \<and> cs = [] then Some (Suc (Suc i), [], []) else None)"
  by (simp add: matchAt_def edgeSlash_def oneChar_def)

lemma replaceFrom_edgeSlash_Suc:
  "replaceFrom edgeSlash (template [Txt '''']) (Suc i) s = stripTrailingSlash s"
proof (induction s arbitrary: i)
  case Nil
  show ?case
    by (subst replaceFrom.simps) (simp add: matchAt_edgeSlash_Nil stripTrailingSlash_def)
next
  case (Cons c cs)
  show ?case
  proof (cases "c = CHR ''/'' \<and> cs = []")
    case True
    then show ?thesis
      by (subst replaceFrom.simps, simp add: matchAt_edgeSlash_Suc template_def stripTrailingSlash_def)
         (subst replaceFrom.simps, simp add: matchAt_edgeSlash_Nil)
  next
    case False
    then have "replaceFrom edgeSlash (template [Txt '''']) (Suc i) (c # cs) = c # stripTrailingSlash cs"
      by (subst replaceFrom.simps) (auto simp add: matchAt_edgeSlash_Suc Cons.IH)
    also have "\<dots> = stripTrailingSlash (c # cs)"
      using False by (auto simp: stripTrailingSlash_def)
    finally show ?thesis .
  qed
qed

lemma replace_edgeSlash:
  "replaceAll edgeSlash (template [Txt '''']) s = stripTrailingSlash (stripLeadingSlash s)"
proof (cases s)
  case Nil
  then show ?thesis
    unfolding replaceAll_def
    by (subst replaceFrom.simps)
       (simp add: matchAt_edgeSlash_Nil stripTrailingSlash_def stripLeadingSlash_def)
next
  case (Cons c cs)
  show ?thesis
    unfolding replaceAll_def Cons
    by (subst replaceFrom.simps)
       (simp add: matchAt_edgeSlash_0 replaceFrom_edgeSlash_Suc template_def stripLeadingSlash_def
                  stripTrailingSlash_def)
qed

lemma cleanSlug_eq_spec: "cleanSlug s = cleanSlug_spec s"
  by (simp add: cleanSlug_def cleanSlug_spec_def replace_anySlash replace_edgeSlash)

lemma lowerChar_idem: "lowerChar (lowerChar c) = lowerChar c"
proof -
  have "of_char c < (256::nat)" by simp
  then show ?thesis
    by (auto simp: lowerChar_def code_unit_def Let_def)
qed

lemma lowerChar_underscore: "lowerChar CHR ''_'' = CHR ''_''"
  by (simp add: lowerChar_def code_unit_def)

lemma set_trim: "set (trim s) \<subseteq> set s"
  unfolding trim_def
  by (metis set_dropWhileD set_rev subsetI)

lemma set_stripLeadingSlash: "set (stripLeadingSlash s) \<subseteq> set s"
  by (auto simp: stripLeadingSlash_def split: list.splits)

lemma set_stripTrailingSlash: "set (stripTrailingSlash s) \<subseteq> set s"
  by (auto simp: stripTrailingSlash_def dest: in_set_butlastD)

lemma no_slash_slashToUnderscore: "CHR ''/'' \<notin> set (slashToUnderscore s)"
  by (auto simp: slashToUnderscore_def)

lemma stripLeadingSlash_id: "CHR ''/'' \<notin> set s \<Longrightarrow> stripLeadingSlash s = s"
  by (auto simp: stripLeadingSlash_def split: list.splits)

lemma stripTrailingSlash_id: "CHR ''/'' \<notin> set s \<Longrightarrow> stripTrailingSlash s = s"
  by (metis last_in_set stripTrailingSlash_def)

lemma slashToUnderscore_id: "CHR ''/'' \<notin> set s \<Longrightarrow> slashToUnderscore s = s"
  by (induction s) (auto simp: slashToUnderscore_def)

lemma trim_idem: "trim (trim s) = trim s"
proof -
  define ys where "ys = dropWhile isSpace s"
  define zs where "zs = dropWhile isSpace (rev ys)"
  have zs: "zs = [] \<or> \<not> isSpace (hd zs)"
    unfolding zs_def using hd_dropWhile by blast
  have "rev zs = [] \<or> \<not> isSpace (hd (rev zs))"
  proof (cases "zs = []")
    case True then show ?thesis by simp
  next
    case False
    with zs have ns: "\<not> isSpace (hd zs)" by simp
    have "hd zs \<in> set zs" using False by simp
    then have "hd zs \<in> set (rev ys)"
      unfolding zs_def by (rule set_dropWhileD)
    then have "last zs = last (rev ys)"
      unfolding zs_def using ns [unfolded zs_def] by (rule dropWhile_last)
    moreover have "ys \<noteq> []" using False zs_def by auto
    moreover have "\<not> isSpace (hd ys)"
      using \<open>ys \<noteq> []\<close> unfolding ys_def using hd_dropWhile by blast
    ultimately show ?thesis
      using False by (simp add: hd_rev last_rev)
  qed
  then have 1: "dropWhile isSpace (rev zs) = rev zs"
    by (simp add: dropWhile_eq_self_iff)
  have 2: "dropWhile isSpace zs = zs"
    using zs dropWhile_eq_self_iff [of isSpace zs] by simp
  have "trim s = rev zs"
    by (simp add: trim_def ys_def zs_def)
  moreover have "trim (rev zs) = rev zs"
    by (simp add: trim_def 1 2)
  ultimately show ?thesis by simp
qed

lemma cleanSlug_spec_chars:
  assumes "x \<in> set (cleanSlug_spec s)"
  shows "lowerChar x = x" and "x \<noteq> CHR ''/''"
proof -
  have x: "x \<in> set (slashToUnderscore (stripTrailingSlash (stripLeadingSlash (toLowerCase s))))"
    using assms set_trim unfolding cleanSlug_spec_def by blast
  then show "x \<noteq> CHR ''/''"
    using no_slash_slashToUnderscore by metis
  from x obtain y where y: "y \<in> set (stripTrailingSlash (stripLeadingSlash (toLowerCase s)))"
    and xy: "x = (if y = CHR ''/'' then CHR ''_'' else y)"
    by (auto simp: slashToUnderscore_def)
  from y have "y \<in> set (toLowerCase s)"
    using set_stripTrailingSlash set_stripLeadingSlash by blast
  then obtain c where "y = lowerChar c"
    by (auto simp: toLowerCase_def)
  then show "lowerChar x = x"
    using xy by (simp add: lowerChar_idem lowerChar_underscore)
qed

lemma cleanSlug_spec_idem: "cleanSlug_spec (cleanSlug_spec s) = cleanSlug_spec s"
proof -
  let ?r = "cleanSlug_spec s"
  have low: "toLowerCase ?r = ?r"
    unfolding toLowerCase_def by (rule map_idI) (rule cleanSlug_spec_chars)
  have ns: "CHR ''/'' \<notin> set ?r"
    using cleanSlug_spec_chars(2) by blast
  have "cleanSlug_spec ?r = trim ?r"
    by (simp add: cleanSlug_spec_def [of ?r] low ns stripLeadingSlash_id stripTrailingSlash_id
                  slashToUnderscore_id)
  also have "\<dots> = ?r"
    by (simp add: cleanSlug_spec_def trim_idem)
  finally show ?thesis .
qed

lemma length_entity: "1 \<le> length (entity c)"
  by (simp add: entity_def)

lemma length_escape_ge: "length s \<le> length (escapeHtml_spec s)"
proof (induction s)
  case Nil
  show ?case by (simp add: escapeHtml_spec_def)
next
  case (Cons c s)
  then show ?case
    using length_entity [of c] by (simp add: escapeHtml_spec_def)
qed

lemma length_escape_gt:
  "CHR ''&'' \<in> set s \<Longrightarrow> length s < length (escapeHtml_spec s)"
proof (induction s)
  case Nil
  then show ?case by simp
next
  case (Cons c s)
  show ?case
  proof (cases "c = CHR ''&''")
    case True
    then show ?thesis
      using length_escape_ge [of s] by (simp add: escapeHtml_spec_def entity_def)
  next
    case False
    then have "length s < length (escapeHtml_spec s)"
      using Cons by simp
    then show ?thesis
      using length_entity [of c] by (simp add: escapeHtml_spec_def)
  qed
qed

lemma amp_in_escape: "CHR ''&'' \<in> set s \<Longrightarrow> CHR ''&'' \<in> set (escapeHtml_spec s)"
  by (induction s) (auto simp: escapeHtml_spec_def entity_def)

text \<open>
  C5: for every input string, \<open>cleanSlug\<close> lower-cases it, strips one leading and one
  trailing slash if present, replaces every remaining slash with an underscore and
  trims surrounding whitespace; \<open>cleanSlug "/My-Post/Sub/" = "my-post_sub"\<close> and
  \<open>cleanSlug "Already_Clean" = "already_clean"\<close>.
\<close>

theorem cleanSlug_refines_spec:
  "cleanSlug s = cleanSlug_spec s
   \<and> cleanSlug ''/My-Post/Sub/'' = ''my-post_sub''
   \<and> cleanSlug ''Already_Clean'' = ''already_clean''"
proof -
  have "cleanSlug ''/My-Post/Sub/'' = ''my-post_sub''" by code_simp
  moreover have "cleanSlug ''Already_Clean'' = ''already_clean''" by code_simp
  ultimately show ?thesis by (simp add: cleanSlug_eq_spec)
qed

text \<open>
  C10: \<open>cleanSlug\<close> is idempotent: \<open>cleanSlug (cleanSlug s) = cleanSlug s\<close> for every
  input string.
\<close>

theorem cleanSlug_idempotent: "cleanSlug (cleanSlug s) = cleanSlug s"
  by (simp add: cleanSlug_eq_spec cleanSlug_spec_idem)

text \<open>
  C7: for every input string, one pass of \<open>escapeHtml\<close> replaces each of the five
  characters \<^verbatim>\<open>& < > " '\<close> by its entity and leaves every other character unchanged,
  each character on its own (the result on a concatenation is the concatenation of
  the results, so substituted text is never scanned again); the string
  \<^verbatim>\<open><b>"x"</b>\<close> becomes \<^verbatim>\<open>&lt;b&gt;&quot;x&quot;&lt;/b&gt;\<close>.
\<close>

theorem escapeHtml_single_pass:
  "escapeHtml s = escapeHtml_spec s
   \<and> escapeHtml (s @ t) = escapeHtml s @ escapeHtml t
   \<and> escapeHtml (''<b>'' @ dq @ ''x'' @ dq @ ''</b>'') = ''&lt;b&gt;&quot;x&quot;&lt;/b&gt;''"
proof (intro conjI)
  show "escapeHtml s = escapeHtml_spec s"
    by (rule escapeHtml_eq_spec)
  show "escapeHtml (s @ t) = escapeHtml s @ escapeHtml t"
    by (rule escapeHtml_append)
  show "escapeHtml (''<b>'' @ dq @ ''x'' @ dq @ ''</b>'') = ''&lt;b&gt;&quot;x&quot;&lt;/b&gt;''"
    by code_simp
qed

text \<open>
  C8: \<open>escapeHtml\<close> is not idempotent: for every string that contains an ampersand
  (the string "&" is one) a second pass differs from the first, since it escapes the
  ampersands that the first pass wrote.
\<close>

theorem escapeHtml_not_idempotent:
  "(\<exists>x. escapeHtml (escapeHtml x) \<noteq> escapeHtml x)
   \<and> (\<forall>x. CHR ''&'' \<in> set x \<longrightarrow> escapeHtml (escapeHtml x) \<noteq> escapeHtml x)
   \<and> escapeHtml ''&'' = ''&amp;''
   \<and> escapeHtml (escapeHtml ''&'') = ''&amp;amp;''"
proof -
  have gen: "escapeHtml (escapeHtml x) \<noteq> escapeHtml x" if "CHR ''&'' \<in> set x" for x
  proof -
    have "CHR ''&'' \<in> set (escapeHtml_spec x)"
      using that by (rule amp_in_escape)
    then have "length (escapeHtml_spec x) < length (escapeHtml_spec (escapeHtml_spec x))"
      by (rule length_escape_gt)
    then show ?thesis
      by (auto simp: escapeHtml_eq_spec)
  qed
  have "escapeHtml (escapeHtml ''&'') \<noteq> escapeHtml ''&''"
    by (rule gen) simp
  moreover have "escapeHtml ''&'' = ''&amp;''" by code_simp
  moreover have "escapeHtml (escapeHtml ''&'') = ''&amp;amp;''" by code_simp
  ultimately show ?thesis
    using gen by blast
qed

theorem escapeHtml_not_idempotent_witness:
  "CHR ''&'' \<in> set ''a&b'' \<and> escapeHtml (escapeHtml ''a&b'') \<noteq> escapeHtml ''a&b''"
  using escapeHtml_not_idempotent by simp

section \<open>Properties of parseMd\<close>

text \<open>
  C6 says that \<open>parseMd\<close> wraps "bold" of \<^verbatim>\<open>**bold** and *italic*\<close> in a strong tag.
  The italic pattern runs before the bold pattern and consumes each pair of
  asterisks as an empty italic span, so the bold pattern finds nothing: the result
  has no strong tag.
\<close>

theorem parseMd_bold_and_italic:
  "parseMd ''**bold** and *italic*'' = ''<p><i></i>bold<i></i> and <i>italic</i></p>''"
  by code_simp

section \<open>Properties of the sort\<close>

lemma mset_insertBack: "mset (insertBack e cmp x ys) = add_mset x (mset ys)"
  by (induction ys) auto

lemma set_insertBack: "set (insertBack e cmp x ys) = insert x (set ys)"
  by (induction ys) auto

lemma mset_foldl_insertBack:
  "mset (foldl (\<lambda>prefix item. insertBack e cmp item prefix) acc xs) = mset acc + mset xs"
  by (induction xs arbitrary: acc) (auto simp: mset_insertBack)

lemma mset_arraySort: "mset (arraySort e cmp xs) = mset xs"
  by (simp add: arraySort_def mset_foldl_insertBack)

lemma set_arraySort: "set (arraySort e cmp xs) = set xs"
  using mset_arraySort [of e cmp xs] by (metis set_mset_mset)

lemma distinct_arraySort: "distinct (arraySort e cmp xs) = distinct xs"
  using mset_arraySort [of e cmp xs] by (metis distinct_count_atmost_1 mset_eq_setD set_arraySort)

text \<open>
  What both engines guarantee about an item and the element it passes or stops at,
  when both carry valid dates.
\<close>

lemma notAfter_trans: "notAfter s t \<Longrightarrow> notAfter t u \<Longrightarrow> notAfter s u"
  by (auto simp: notAfter_def split: option.splits)

lemma goesBefore_compareFn:
  assumes "timeValue (submitted_at (f x)) \<noteq> None" and "timeValue (submitted_at (f y)) \<noteq> None"
  shows "goesBefore e (\<lambda>a b. compareFn (f a) (f b)) x y \<Longrightarrow>
           notAfter (submitted_at (f x)) (submitted_at (f y))"
    and "\<not> goesBefore e (\<lambda>a b. compareFn (f a) (f b)) x y \<Longrightarrow>
           notAfter (submitted_at (f y)) (submitted_at (f x))"
  using assms
  by (cases e; auto simp: goesBefore_def compareFn_def dateLess_def notAfter_def
                    split: option.splits if_splits)+

lemma sorted_insertBack:
  assumes "sorted_wrt (\<lambda>a b. notAfter (submitted_at (f b)) (submitted_at (f a))) ys"
    and "timeValue (submitted_at (f x)) \<noteq> None"
    and "\<forall>y \<in> set ys. timeValue (submitted_at (f y)) \<noteq> None"
  shows "sorted_wrt (\<lambda>a b. notAfter (submitted_at (f b)) (submitted_at (f a)))
           (insertBack e (\<lambda>a b. compareFn (f a) (f b)) x ys)"
  using assms
proof (induction ys)
  case Nil
  show ?case by simp
next
  case (Cons y ys)
  have vy: "timeValue (submitted_at (f y)) \<noteq> None"
    using Cons.prems(3) by simp
  show ?case
  proof (cases "goesBefore e (\<lambda>a b. compareFn (f a) (f b)) x y")
    case True
    have "notAfter (submitted_at (f x)) (submitted_at (f y))"
      using goesBefore_compareFn(1) [OF Cons.prems(2) vy True] .
    then show ?thesis
      using Cons True by (auto simp: set_insertBack)
  next
    case False
    have xy: "notAfter (submitted_at (f y)) (submitted_at (f x))"
      using goesBefore_compareFn(2) [OF Cons.prems(2) vy False] .
    have "notAfter (submitted_at (f z)) (submitted_at (f x))" if "z \<in> set ys" for z
      using that Cons.prems(1) xy notAfter_trans by fastforce
    then show ?thesis
      using Cons.prems(1) False xy by simp
  qed
qed

lemma sorted_foldl_insertBack:
  assumes "sorted_wrt (\<lambda>a b. notAfter (submitted_at (f b)) (submitted_at (f a))) acc"
    and "\<forall>y \<in> set acc \<union> set xs. timeValue (submitted_at (f y)) \<noteq> None"
  shows "sorted_wrt (\<lambda>a b. notAfter (submitted_at (f b)) (submitted_at (f a)))
           (foldl (\<lambda>prefix item. insertBack e (\<lambda>a b. compareFn (f a) (f b)) item prefix) acc xs)"
  using assms
proof (induction xs arbitrary: acc)
  case Nil
  then show ?case by simp
next
  case (Cons x xs)
  have "sorted_wrt (\<lambda>a b. notAfter (submitted_at (f b)) (submitted_at (f a)))
          (insertBack e (\<lambda>a b. compareFn (f a) (f b)) x acc)"
    using Cons.prems by (intro sorted_insertBack) auto
  moreover have "\<forall>y \<in> set (insertBack e (\<lambda>a b. compareFn (f a) (f b)) x acc) \<union> set xs.
                   timeValue (submitted_at (f y)) \<noteq> None"
    using Cons.prems(2) by (auto simp: set_insertBack)
  ultimately show ?case
    using Cons.IH by simp
qed

lemma sorted_arraySort:
  assumes "\<forall>y \<in> set xs. timeValue (submitted_at (f y)) \<noteq> None"
  shows "sorted_wrt (\<lambda>a b. notAfter (submitted_at (f a)) (submitted_at (f b)))
           (arraySort e (\<lambda>a b. compareFn (f a) (f b)) xs)"
proof -
  have "sorted_wrt (\<lambda>a b. notAfter (submitted_at (f b)) (submitted_at (f a)))
          (foldl (\<lambda>prefix item. insertBack e (\<lambda>a b. compareFn (f a) (f b)) item prefix) [] xs)"
    using assms by (intro sorted_foldl_insertBack) auto
  then show ?thesis
    by (simp add: arraySort_def sorted_wrt_rev)
qed

text \<open>Ties: with MovesOnNegative an item never passes an element with the same time.\<close>

lemma stable_insertBack:
  fixes f :: "nat \<Rightarrow> 'a comment_scheme"
  assumes "sorted_wrt (\<lambda>a b. sameTime (submitted_at (f b)) (submitted_at (f a)) \<longrightarrow> b < a) ys"
    and "\<forall>y\<in>set ys. y < x"
  shows "sorted_wrt (\<lambda>a b. sameTime (submitted_at (f b)) (submitted_at (f a)) \<longrightarrow> b < a)
           (insertBack MovesOnNegative (\<lambda>a b. compareFn (f a) (f b)) x ys)"
  using assms
proof (induction ys)
  case Nil
  show ?case by simp
next
  case (Cons y ys)
  show ?case
  proof (cases "goesBefore MovesOnNegative (\<lambda>a b. compareFn (f a) (f b)) x y")
    case True
    then have "dateLess (submitted_at (f x)) (submitted_at (f y))"
      by (simp add: goesBefore_def compareFn_def split: if_splits)
    then have "\<not> sameTime (submitted_at (f x)) (submitted_at (f y))"
      by (auto simp: dateLess_def sameTime_def split: option.splits)
    then show ?thesis
      using Cons True by (auto simp: set_insertBack)
  next
    case False
    then show ?thesis
      using Cons by auto
  qed
qed

lemma stable_foldl_insertBack:
  fixes f :: "nat \<Rightarrow> 'a comment_scheme"
  assumes "sorted_wrt (\<lambda>a b. sameTime (submitted_at (f b)) (submitted_at (f a)) \<longrightarrow> b < a) acc"
    and "\<forall>y\<in>set acc. \<forall>x\<in>set xs. y < x"
    and "sorted_wrt (<) xs"
  shows "sorted_wrt (\<lambda>a b. sameTime (submitted_at (f b)) (submitted_at (f a)) \<longrightarrow> b < a)
           (foldl (\<lambda>prefix item. insertBack MovesOnNegative (\<lambda>a b. compareFn (f a) (f b)) item prefix)
              acc xs)"
  using assms
proof (induction xs arbitrary: acc)
  case Nil
  then show ?case by simp
next
  case (Cons x xs)
  have "sorted_wrt (\<lambda>a b. sameTime (submitted_at (f b)) (submitted_at (f a)) \<longrightarrow> b < a)
          (insertBack MovesOnNegative (\<lambda>a b. compareFn (f a) (f b)) x acc)"
    using Cons.prems by (intro stable_insertBack) auto
  moreover have "\<forall>y\<in>set (insertBack MovesOnNegative (\<lambda>a b. compareFn (f a) (f b)) x acc).
                   \<forall>z\<in>set xs. y < z"
    using Cons.prems by (auto simp: set_insertBack)
  moreover have "sorted_wrt (<) xs"
    using Cons.prems by simp
  ultimately show ?case
    using Cons.IH by simp
qed

lemma stable_arraySort:
  fixes f :: "nat \<Rightarrow> 'a comment_scheme"
  assumes "sorted_wrt (<) xs"
  shows "sorted_wrt (\<lambda>a b. sameTime (submitted_at (f a)) (submitted_at (f b)) \<longrightarrow> a < b)
           (arraySort MovesOnNegative (\<lambda>a b. compareFn (f a) (f b)) xs)"
proof -
  have "sorted_wrt (\<lambda>a b. sameTime (submitted_at (f b)) (submitted_at (f a)) \<longrightarrow> b < a)
          (foldl (\<lambda>prefix item. insertBack MovesOnNegative (\<lambda>a b. compareFn (f a) (f b)) item prefix)
             [] xs)"
    using assms by (intro stable_foldl_insertBack) auto
  then show ?thesis
    by (simp add: arraySort_def sorted_wrt_rev)
qed

section \<open>The index\<close>

lemma map_of_assign: "map_of (assign k key v) = (map_of k)(key \<mapsto> v)"
  by (induction k key v rule: assign.induct) auto

lemma keys_assign: "fst ` set (assign k key v) = insert key (fst ` set k)"
  by (induction k key v rule: assign.induct) auto

lemma map_fst_assign:
  "map fst (assign k key v) = (if key \<in> fst ` set k then map fst k else map fst k @ [key])"
  by (induction k key v rule: assign.induct) (auto simp: image_iff)

lemma distinct_assign: "distinct (map fst k) \<Longrightarrow> distinct (map fst (assign k key v))"
  by (auto simp: map_fst_assign)

section \<open>The first loop\<close>

lemma register_fields:
  "comment_id (objs (snd (register st c)) a) = comment_id (objs (snd st) a)"
  "parent_id (objs (snd (register st c)) a) = parent_id (objs (snd st) a)"
  "submitted_at (objs (snd (register st c)) a) = submitted_at (objs (snd st) a)"
  "fresh (snd (register st c)) = fresh (snd st)"
  by (cases st; simp add: register_def)+

lemma register_children:
  "children (objs (snd (register st c)) a) = (if a = c then [] else children (objs (snd st) a))"
  by (cases st) (simp add: register_def)

lemma register_index:
  "fst (register st c) = assign (fst st) (comment_id (objs (snd st) c)) c"
  by (cases st) (simp add: register_def)

lemma foldl_register_fields:
  "comment_id (objs (snd (foldl register st xs)) a) = comment_id (objs (snd st) a)"
  "parent_id (objs (snd (foldl register st xs)) a) = parent_id (objs (snd st) a)"
  "submitted_at (objs (snd (foldl register st xs)) a) = submitted_at (objs (snd st) a)"
  "fresh (snd (foldl register st xs)) = fresh (snd st)"
  by (induction xs arbitrary: st; simp add: register_fields)+

lemma foldl_register_children:
  "children (objs (snd (foldl register st xs)) a) =
     (if a \<in> set xs then [] else children (objs (snd st) a))"
  by (induction xs arbitrary: st) (auto simp: register_children)

lemma foldl_register_index:
  "fst (foldl register st xs) =
     foldl (\<lambda>k c. assign k (comment_id (objs (snd st) c)) c) (fst st) xs"
proof (induction xs arbitrary: st)
  case Nil
  show ?case by simp
next
  case (Cons x xs)
  have "(\<lambda>k c. assign k (comment_id (objs (snd (register st x)) c)) c) =
        (\<lambda>k c. assign k (comment_id (objs (snd st) c)) c)"
    by (simp add: register_fields)
  then show ?case
    by (simp add: Cons.IH register_index)
qed

lemma foldl_assign_other:
  "key \<notin> f ` set xs \<Longrightarrow> map_of (foldl (\<lambda>k c. assign k (f c) c) k0 xs) key = map_of k0 key"
  by (induction xs arbitrary: k0) (auto simp: map_of_assign)

lemma foldl_assign_hit:
  "key \<in> f ` set xs \<Longrightarrow>
     \<exists>a \<in> set xs. f a = key \<and> map_of (foldl (\<lambda>k c. assign k (f c) c) k0 xs) key = Some a"
proof (induction xs arbitrary: k0)
  case Nil
  then show ?case by simp
next
  case (Cons x xs)
  show ?case
  proof (cases "key \<in> f ` set xs")
    case True
    then show ?thesis using Cons.IH by fastforce
  next
    case False
    then have "f x = key" using Cons.prems by auto
    then show ?thesis
      using False by (simp add: foldl_assign_other map_of_assign)
  qed
qed

lemma foldl_assign_keys:
  "fst ` set (foldl (\<lambda>k c. assign k (f c) c) k0 xs) = fst ` set k0 \<union> f ` set xs"
  by (induction xs arbitrary: k0) (auto simp: keys_assign)

lemma foldl_assign_distinct:
  "distinct (map fst k0) \<Longrightarrow> distinct (map fst (foldl (\<lambda>k c. assign k (f c) c) k0 xs))"
  by (induction xs arbitrary: k0) (auto simp: distinct_assign)

section \<open>The second loop\<close>

lemma push_fields:
  "comment_id (objs (push p c h) a) = comment_id (objs h a)"
  "parent_id (objs (push p c h) a) = parent_id (objs h a)"
  "submitted_at (objs (push p c h) a) = submitted_at (objs h a)"
  "fresh (push p c h) = fresh h"
  by (simp_all add: push_def)

lemma push_children:
  "children (objs (push p c h) a) = (if a = p then children (objs h a) @ [c] else children (objs h a))"
  by (simp add: push_def)

lemma attach_fields:
  "comment_id (objs (snd (attach k xs h)) a) = comment_id (objs h a)"
  "parent_id (objs (snd (attach k xs h)) a) = parent_id (objs h a)"
  "submitted_at (objs (snd (attach k xs h)) a) = submitted_at (objs h a)"
  "fresh (snd (attach k xs h)) = fresh h"
  by (induction k xs h rule: attach.induct; simp add: push_fields split: option.splits)+

lemma placeOf_push: "placeOf k (push p c h) = placeOf k h"
  by (rule ext) (simp add: placeOf_def push_fields)

lemma attach_ok:
  assumes "\<forall>c \<in> set xs. \<not> falsy (parent_id (objs h c)) \<longrightarrow>
             map_of k (the (parent_id (objs h c))) \<noteq> None"
  shows "fst (attach k xs h) = None \<and>
         (\<forall>a. children (objs (snd (attach k xs h)) a) =
                children (objs h a) @ filter (\<lambda>c. placeOf k h c = Some a) xs)"
  using assms
proof (induction xs arbitrary: h)
  case Nil
  show ?case by simp
next
  case (Cons c cs)
  show ?case
  proof (cases "falsy (parent_id (objs h c))")
    case True
    then have "attach k (c # cs) h = attach k cs h" by simp
    moreover have "placeOf k h c = None"
      using True by (simp add: placeOf_def)
    ultimately show ?thesis
      using Cons.IH [of h] Cons.prems by simp
  next
    case False
    then obtain p where p: "map_of k (the (parent_id (objs h c))) = Some p"
      using Cons.prems by auto
    then have step: "attach k (c # cs) h = attach k cs (push p c h)"
      using False by simp
    have place: "placeOf k h c = Some p"
      using False p by (simp add: placeOf_def)
    have "\<forall>c' \<in> set cs. \<not> falsy (parent_id (objs (push p c h) c')) \<longrightarrow>
             map_of k (the (parent_id (objs (push p c h) c'))) \<noteq> None"
      using Cons.prems by (simp add: push_fields)
    from Cons.IH [OF this] show ?thesis
      unfolding step by (simp add: placeOf_push push_children place)
  qed
qed


section \<open>The callback of getComments\<close>

lemma rootsOf_filter: "rootsOf h xs = filter (\<lambda>c. falsy (parent_id (objs h c))) xs"
proof -
  have "foldl (\<lambda>acc curr. if falsy (parent_id (objs h curr)) then acc @ [curr] else acc) acc xs
        = acc @ filter (\<lambda>c. falsy (parent_id (objs h c))) xs" for acc
    by (induction xs arbitrary: acc) auto
  then show ?thesis by (simp add: rootsOf_def)
qed

lemma assemble_alt:
  "assemble e cs (this, h) =
     (let S = sortedAddrs e h cs;
          r1 = foldl register (commentsHash this, parsedHeap h cs) S;
          r2 = attach (fst r1) S (snd r1)
      in (case fst r2 of Some err \<Rightarrow> Inl err | None \<Rightarrow> Inr (rootsOf (snd r2) S),
          this\<lparr>commentsHash := fst r1\<rparr>, snd r2))"
  by (simp add: assemble_def sortedAddrs_def parsedHeap_def newAddrs_def allocArray_def Let_def
           split: prod.splits option.splits)

lemma parsedHeap_new:
  "a \<in> set (newAddrs h cs) \<Longrightarrow> objs (parsedHeap h cs) a = parsed (cs ! (a - fresh h))"
  by (simp add: parsedHeap_def allocArray_def newAddrs_def)

lemma parsedHeap_old:
  "a \<notin> set (newAddrs h cs) \<Longrightarrow> objs (parsedHeap h cs) a = objs h a"
  by (auto simp add: parsedHeap_def allocArray_def newAddrs_def)

lemma parsedHeap_fresh: "fresh (parsedHeap h cs) = fresh h + length cs"
  by (simp add: parsedHeap_def allocArray_def)

lemma set_sortedAddrs: "set (sortedAddrs e h cs) = set (newAddrs h cs)"
  by (simp add: sortedAddrs_def set_arraySort)

lemma distinct_sortedAddrs: "distinct (sortedAddrs e h cs)"
  by (simp add: sortedAddrs_def distinct_arraySort newAddrs_def)

lemma mset_sortedAddrs: "mset (sortedAddrs e h cs) = mset (newAddrs h cs)"
  by (simp add: sortedAddrs_def mset_arraySort)

lemma newAddrs_nth:
  "i < length cs \<Longrightarrow> fresh h + i \<in> set (newAddrs h cs)"
  by (simp add: newAddrs_def)

lemma newAddrs_D:
  "a \<in> set (newAddrs h cs) \<Longrightarrow> a - fresh h < length cs \<and> cs ! (a - fresh h) \<in> set cs \<and> fresh h \<le> a"
  by (auto simp: newAddrs_def)

text \<open>The index after the first loop.\<close>

lemma assemble_index:
  "commentsHash (fst (snd (assemble e cs (this, h)))) = indexAfter e this h cs"
  by (simp add: assemble_alt Let_def indexAfter_def foldl_register_index)

lemma assemble_client:
  "fst (snd (assemble e cs (this, h))) = this\<lparr>commentsHash := indexAfter e this h cs\<rparr>"
  by (simp add: assemble_alt Let_def indexAfter_def foldl_register_index)

lemma ids_of_new:
  "(\<lambda>c. comment_id (objs (parsedHeap h cs) c)) ` set (newAddrs h cs) = comment_id ` set cs"
proof (intro set_eqI iffI)
  fix k assume "k \<in> (\<lambda>c. comment_id (objs (parsedHeap h cs) c)) ` set (newAddrs h cs)"
  then obtain a where a: "a \<in> set (newAddrs h cs)" "k = comment_id (objs (parsedHeap h cs) a)"
    by auto
  then have "k = comment_id (cs ! (a - fresh h))"
    by (simp add: parsedHeap_new parsed_def)
  then show "k \<in> comment_id ` set cs"
    using newAddrs_D [OF a(1)] by auto
next
  fix k assume "k \<in> comment_id ` set cs"
  then obtain i where i: "i < length cs" "k = comment_id (cs ! i)"
    by (auto simp: in_set_conv_nth)
  then have "k = comment_id (objs (parsedHeap h cs) (fresh h + i))"
    by (simp add: parsedHeap_new newAddrs_nth parsed_def)
  then show "k \<in> (\<lambda>c. comment_id (objs (parsedHeap h cs) c)) ` set (newAddrs h cs)"
    using newAddrs_nth [OF i(1)] by blast
qed

lemma indexAfter_keys:
  "fst ` set (indexAfter e this h cs) = fst ` set (commentsHash this) \<union> comment_id ` set cs"
  by (simp add: indexAfter_def foldl_assign_keys set_sortedAddrs ids_of_new)


lemma indexAfter_hit:
  assumes "k \<in> comment_id ` set cs"
  shows "\<exists>a \<in> set (newAddrs h cs). comment_id (cs ! (a - fresh h)) = k \<and>
           map_of (indexAfter e this h cs) k = Some a"
proof -
  have "k \<in> (\<lambda>c. comment_id (objs (parsedHeap h cs) c)) ` set (sortedAddrs e h cs)"
    using assms by (simp add: set_sortedAddrs ids_of_new)
  from foldl_assign_hit [OF this, of "commentsHash this"]
  obtain a where "a \<in> set (sortedAddrs e h cs)" "comment_id (objs (parsedHeap h cs) a) = k"
    "map_of (indexAfter e this h cs) k = Some a"
    unfolding indexAfter_def by blast
  then show ?thesis
    by (auto simp: set_sortedAddrs parsedHeap_new parsed_def)
qed

lemma indexAfter_distinct:
  "distinct (map fst (commentsHash this)) \<Longrightarrow> distinct (map fst (indexAfter e this h cs))"
  unfolding indexAfter_def by (rule foldl_assign_distinct)

text \<open>Where each comment of the array is put.\<close>

lemma placeIn_resolved:
  assumes "parentsResolve cs" and "a \<in> set (newAddrs h cs)"
  shows "(placeIn e this h cs a = None) = falsy (parent_id (cs ! (a - fresh h)))"
    and "placeIn e this h cs a = Some p \<Longrightarrow>
           p \<in> set (newAddrs h cs) \<and>
           comment_id (cs ! (p - fresh h)) = the (parent_id (cs ! (a - fresh h)))"
proof -
  have root: "placeIn e this h cs a = None" if "falsy (parent_id (cs ! (a - fresh h)))"
    using that assms(2) by (simp add: placeIn_def placeOf_def parsedHeap_new parsed_def)
  have inner: "\<exists>q \<in> set (newAddrs h cs). placeIn e this h cs a = Some q \<and>
                 comment_id (cs ! (q - fresh h)) = the (parent_id (cs ! (a - fresh h)))"
    if nf: "\<not> falsy (parent_id (cs ! (a - fresh h)))"
  proof -
    have "cs ! (a - fresh h) \<in> set cs"
      using newAddrs_D [OF assms(2)] by simp
    then have "the (parent_id (cs ! (a - fresh h))) \<in> comment_id ` set cs"
      using assms(1) nf unfolding parentsResolve_def by force
    from indexAfter_hit [OF this, of h e this] show ?thesis
      using nf assms(2) by (auto simp: placeIn_def placeOf_def parsedHeap_new parsed_def)
  qed
  show "(placeIn e this h cs a = None) = falsy (parent_id (cs ! (a - fresh h)))"
  proof (cases "falsy (parent_id (cs ! (a - fresh h)))")
    case True
    then show ?thesis using root by simp
  next
    case False
    from inner [OF False] show ?thesis using False by auto
  qed
  show "p \<in> set (newAddrs h cs) \<and>
        comment_id (cs ! (p - fresh h)) = the (parent_id (cs ! (a - fresh h)))"
    if ps: "placeIn e this h cs a = Some p"
  proof (cases "falsy (parent_id (cs ! (a - fresh h)))")
    case True
    then show ?thesis using root ps by simp
  next
    case False
    from inner [OF False] show ?thesis using ps by auto
  qed
qed


lemma assemble_fields:
  "comment_id (objs (snd (snd (assemble e cs (this, h)))) a) = comment_id (objs (parsedHeap h cs) a)"
  "parent_id (objs (snd (snd (assemble e cs (this, h)))) a) = parent_id (objs (parsedHeap h cs) a)"
  "submitted_at (objs (snd (snd (assemble e cs (this, h)))) a) = submitted_at (objs (parsedHeap h cs) a)"
  "fresh (snd (snd (assemble e cs (this, h)))) = fresh h + length cs"
  by (simp_all add: assemble_alt Let_def attach_fields foldl_register_fields parsedHeap_fresh)

lemma assemble_new_fields:
  assumes "a \<in> set (newAddrs h cs)"
  shows "comment_id (objs (snd (snd (assemble e cs (this, h)))) a) = comment_id (cs ! (a - fresh h))"
    and "parent_id (objs (snd (snd (assemble e cs (this, h)))) a) = parent_id (cs ! (a - fresh h))"
    and "submitted_at (objs (snd (snd (assemble e cs (this, h)))) a) = submitted_at (cs ! (a - fresh h))"
  using assms by (simp_all add: assemble_fields parsedHeap_new parsed_def)

lemma placeOf_cong_fields:
  assumes "\<And>a. parent_id (objs h' a) = parent_id (objs h a)"
  shows "placeOf k h' = placeOf k h"
  by (rule ext) (simp add: placeOf_def assms)

lemma assemble_resolved:
  assumes "parentsResolve cs"
  shows "fst (assemble e cs (this, h)) =
           Inr (filter (\<lambda>c. placeIn e this h cs c = None) (sortedAddrs e h cs))"
    and "children (objs (snd (snd (assemble e cs (this, h)))) a) =
           (if a \<in> set (newAddrs h cs)
            then filter (\<lambda>c. placeIn e this h cs c = Some a) (sortedAddrs e h cs)
            else children (objs h a))"
proof -
  define S where "S = sortedAddrs e h cs"
  define r1 where "r1 = foldl register (commentsHash this, parsedHeap h cs) S"
  define k2 where "k2 = fst r1"
  define h2 where "h2 = snd r1"
  define r2 where "r2 = attach k2 S h2"
  have k2: "k2 = indexAfter e this h cs"
    by (simp add: k2_def r1_def S_def indexAfter_def foldl_register_index)
  have par2: "parent_id (objs h2 a) = parent_id (objs (parsedHeap h cs) a)" for a
    by (simp add: h2_def r1_def foldl_register_fields)
  have place2: "placeOf k2 h2 = placeIn e this h cs"
    unfolding placeIn_def k2 [symmetric] by (rule placeOf_cong_fields) (rule par2)
  have setS: "set S = set (newAddrs h cs)"
    by (simp add: S_def set_sortedAddrs)
  have res: "\<forall>c \<in> set S. \<not> falsy (parent_id (objs h2 c)) \<longrightarrow>
               map_of k2 (the (parent_id (objs h2 c))) \<noteq> None"
  proof (intro ballI impI)
    fix c assume c: "c \<in> set S" and nf: "\<not> falsy (parent_id (objs h2 c))"
    have cn: "c \<in> set (newAddrs h cs)" using c setS by simp
    have "\<not> falsy (parent_id (cs ! (c - fresh h)))"
      using nf cn by (simp add: par2 parsedHeap_new parsed_def)
    with placeIn_resolved(1) [OF assms cn, of e this]
    obtain p where "placeIn e this h cs c = Some p" by auto
    then have "placeOf k2 h2 c = Some p" by (simp add: place2)
    then show "map_of k2 (the (parent_id (objs h2 c))) \<noteq> None"
      using nf by (simp add: placeOf_def)
  qed
  from attach_ok [OF res]
  have ok2: "fst r2 = None"
    and ch2: "\<And>a. children (objs (snd r2) a) =
                children (objs h2 a) @ filter (\<lambda>c. placeIn e this h cs c = Some a) S"
    by (simp_all add: r2_def place2)
  have asm: "assemble e cs (this, h) =
               (case fst r2 of Some err \<Rightarrow> Inl err | None \<Rightarrow> Inr (rootsOf (snd r2) S),
                this\<lparr>commentsHash := k2\<rparr>, snd r2)"
    unfolding r2_def k2_def h2_def r1_def S_def by (simp add: assemble_alt Let_def)
  have par3: "parent_id (objs (snd r2) a) = parent_id (objs (parsedHeap h cs) a)" for a
    by (simp add: r2_def attach_fields par2)
  have "rootsOf (snd r2) S = filter (\<lambda>c. placeIn e this h cs c = None) S"
    unfolding rootsOf_filter
  proof (rule filter_cong [OF refl])
    fix c assume "c \<in> set S"
    then have cn: "c \<in> set (newAddrs h cs)" using setS by simp
    show "falsy (parent_id (objs (snd r2) c)) = (placeIn e this h cs c = None)"
      using placeIn_resolved(1) [OF assms cn, of e this] cn
      by (simp add: par3 parsedHeap_new parsed_def)
  qed
  then show "fst (assemble e cs (this, h)) =
           Inr (filter (\<lambda>c. placeIn e this h cs c = None) (sortedAddrs e h cs))"
    by (simp add: asm ok2 S_def)
  have ch_h2: "children (objs h2 a) = (if a \<in> set S then [] else children (objs (parsedHeap h cs) a))"
    by (simp add: h2_def r1_def foldl_register_children)
  show "children (objs (snd (snd (assemble e cs (this, h)))) a) =
           (if a \<in> set (newAddrs h cs)
            then filter (\<lambda>c. placeIn e this h cs c = Some a) (sortedAddrs e h cs)
            else children (objs h a))"
  proof (cases "a \<in> set (newAddrs h cs)")
    case True
    then show ?thesis
      by (simp add: asm ch2 ch_h2 S_def set_sortedAddrs)
  next
    case False
    have "filter (\<lambda>c. placeIn e this h cs c = Some a) S = []"
    proof (rule filter_False, intro ballI notI)
      fix c assume "c \<in> set S" and eq: "placeIn e this h cs c = Some a"
      then have cn: "c \<in> set (newAddrs h cs)" using setS by simp
      from placeIn_resolved(2) [OF assms cn eq]
      have "a \<in> set (newAddrs h cs)"
        by simp
      then show False using False by simp
    qed
    then show ?thesis
      using False by (simp add: asm ch2 ch_h2 S_def set_sortedAddrs parsedHeap_old)
  qed
qed














section \<open>Counting\<close>

lemma count_list_distinct: "distinct xs \<Longrightarrow> count_list xs a = (if a \<in> set xs then 1 else 0)"
  by (induction xs) auto

lemma count_list_filter: "count_list (filter P xs) a = (if P a then count_list xs a else 0)"
  by (induction xs) auto

lemma count_list_concat: "count_list (concat xss) a = sum_list (map (\<lambda>xs. count_list xs a) xss)"
  by (induction xss) auto

lemma sum_list_indicator: "sum_list (map (\<lambda>p. if p = q then 1 else 0) xs) = count_list xs q"
  by (induction xs) auto

lemma sum_list_indicator_if:
  "sum_list (map (\<lambda>p. if b \<and> place = Some p then 1 else 0) xs) =
     (if b then (case place of None \<Rightarrow> 0 | Some q \<Rightarrow> count_list xs q) else 0)"
  by (induction xs) (auto split: option.splits)

lemma count_list_zero_Nil: "(\<forall>a. count_list xs a = 0) \<Longrightarrow> xs = []"
  by (cases xs) (auto split: if_splits)

lemma atDepth_unique: "atDepth place k a \<Longrightarrow> atDepth place k' a \<Longrightarrow> k = k'"
proof (induction k arbitrary: k' a)
  case 0
  then show ?case by (cases k') auto
next
  case (Suc k)
  then show ?case by (cases k') (auto split: option.splits)
qed

lemma sum_list_unique_depth:
  assumes "atDepth place k0 a" and "k0 < m"
  shows "sum_list (map (\<lambda>k. if b \<and> atDepth place k a then 1 else 0) [0 ..< m]) = (if b then 1 else (0::nat))"
proof -
  have "(\<lambda>k. if b \<and> atDepth place k a then 1 else (0::nat)) = (\<lambda>k. if b \<and> k = k0 then 1 else 0)"
    using assms(1) atDepth_unique by (intro ext) auto
  moreover have "sum_list (map (\<lambda>k. if b \<and> k = k0 then 1 else (0::nat)) [0 ..< m]) =
                 (if b then count_list [0 ..< m] k0 else 0)"
    by (induction m) auto
  ultimately show ?thesis
    using assms(2) by (simp add: count_list_distinct)
qed


section \<open>The levels of the forest\<close>

lemma level_count:
  assumes S: "distinct S"
    and roots: "roots = filter (\<lambda>c. place c = None) S"
    and ch: "\<And>p. p \<in> set S \<Longrightarrow> children (objs h' p) = filter (\<lambda>c. place c = Some p) S"
    and closed: "\<And>c p. c \<in> set S \<Longrightarrow> place c = Some p \<Longrightarrow> p \<in> set S"
  shows "count_list (level h' roots k) a = (if a \<in> set S \<and> atDepth place k a then 1 else 0)"
proof (induction k arbitrary: a)
  case 0
  show ?case
    by (simp add: roots count_list_filter count_list_distinct [OF S])
next
  case (Suc k)
  have sub: "p \<in> set S" if "p \<in> set (level h' roots k)" for p
  proof (rule ccontr)
    assume "p \<notin> set S"
    then have "count_list (level h' roots k) p = 0" by (simp add: Suc.IH)
    then show False using that by (simp add: count_list_0_iff)
  qed
  have "count_list (level h' roots (Suc k)) a =
        sum_list (map (\<lambda>p. count_list (children (objs h' p)) a) (level h' roots k))"
    by (simp add: count_list_concat comp_def)
  also have "\<dots> = sum_list (map (\<lambda>p. if a \<in> set S \<and> place a = Some p then 1 else 0)
                              (level h' roots k))"
    by (rule arg_cong [where f = sum_list], rule map_cong [OF refl])
       (simp add: ch sub count_list_filter count_list_distinct [OF S])
  also have "\<dots> = (if a \<in> set S
                   then (case place a of None \<Rightarrow> 0 | Some q \<Rightarrow> count_list (level h' roots k) q)
                   else 0)"
    by (rule sum_list_indicator_if)
  also have "\<dots> = (if a \<in> set S \<and> atDepth place (Suc k) a then 1 else 0)"
    using closed by (auto simp: Suc.IH split: option.splits)
  finally show ?case .
qed

lemma forestNodes_count:
  assumes S: "distinct S"
    and roots: "roots = filter (\<lambda>c. place c = None) S"
    and ch: "\<And>p. p \<in> set S \<Longrightarrow> children (objs h' p) = filter (\<lambda>c. place c = Some p) S"
    and closed: "\<And>c p. c \<in> set S \<Longrightarrow> place c = Some p \<Longrightarrow> p \<in> set S"
    and depth: "\<And>a. a \<in> set S \<Longrightarrow> \<exists>k \<le> n. atDepth place k a"
  shows "mset (forestNodes h' roots n) = mset S" and "level h' roots (Suc n) = []"
proof -
  note lc = level_count [OF S roots ch closed]
  have cnt: "count_list (forestNodes h' roots n) a = (if a \<in> set S then 1 else 0)" for a
  proof (cases "a \<in> set S")
    case True
    from depth [OF True] obtain k0 where k0: "k0 \<le> n" "atDepth place k0 a" by blast
    have "count_list (forestNodes h' roots n) a =
          sum_list (map (\<lambda>k. if a \<in> set S \<and> atDepth place k a then 1 else 0) [0 ..< Suc n])"
      unfolding forestNodes_def count_list_concat map_map comp_def using lc by simp
    also have "\<dots> = (if a \<in> set S then 1 else 0)"
      using k0 by (intro sum_list_unique_depth [where ?k0.0 = k0]) auto
    finally show ?thesis .
  next
    case False
    have "count_list (forestNodes h' roots n) a =
          sum_list (map (\<lambda>k. if a \<in> set S \<and> atDepth place k a then 1 else 0) [0 ..< Suc n])"
      unfolding forestNodes_def count_list_concat map_map comp_def using lc by simp
    also have "\<dots> = 0" using False by simp
    finally show ?thesis using False by simp
  qed
  show "mset (forestNodes h' roots n) = mset S"
    by (rule multiset_eqI) (simp add: count_mset cnt count_list_distinct [OF S])
  have "count_list (level h' roots (Suc n)) a = 0" for a
  proof (cases "a \<in> set S \<and> atDepth place (Suc n) a")
    case True
    from depth [of a] True obtain k0 where "k0 \<le> n" "atDepth place k0 a" by blast
    with True atDepth_unique [of place k0 a "Suc n"] show ?thesis by auto
  next
    case False
    then have "(if a \<in> set S \<and> atDepth place (Suc n) a then 1 else 0) = (0::nat)"
      by (simp only: if_False)
    then show ?thesis by (simp only: lc)
  qed
  then show "level h' roots (Suc n) = []"
    by (intro count_list_zero_Nil) simp
qed

lemma endsWithin_depth:
  assumes res: "parentsResolve cs"
    and a: "a \<in> set (newAddrs h cs)"
    and e: "endsWithin cs n (cs ! (a - fresh h))"
  shows "\<exists>k \<le> n. atDepth (placeIn e' this h cs) k a"
  using a e
proof (induction n arbitrary: a)
  case 0
  then have "placeIn e' this h cs a = None"
    using placeIn_resolved(1) [OF res "0.prems"(1)] by simp
  then show ?case by simp
next
  case (Suc n)
  show ?case
  proof (cases "falsy (parent_id (cs ! (a - fresh h)))")
    case True
    then have "placeIn e' this h cs a = None"
      using placeIn_resolved(1) [OF res Suc.prems(1)] by simp
    then have "atDepth (placeIn e' this h cs) 0 a" by simp
    then show ?thesis by blast
  next
    case False
    then obtain p where p: "placeIn e' this h cs a = Some p"
      using placeIn_resolved(1) [OF res Suc.prems(1), of e' this] by auto
    from placeIn_resolved(2) [OF res Suc.prems(1) p]
    have pn: "p \<in> set (newAddrs h cs)"
      and pid: "comment_id (cs ! (p - fresh h)) = the (parent_id (cs ! (a - fresh h)))"
      by simp_all
    have "cs ! (p - fresh h) \<in> set cs"
      using newAddrs_D [OF pn] by simp
    then have "endsWithin cs n (cs ! (p - fresh h))"
      using Suc.prems(2) False pid by auto
    from Suc.IH [OF pn this] obtain k where "k \<le> n" "atDepth (placeIn e' this h cs) k p"
      by blast
    then have "Suc k \<le> Suc n" "atDepth (placeIn e' this h cs) (Suc k) a"
      using p by simp_all
    then show ?thesis by blast
  qed
qed

section \<open>getComments\<close>

lemma getComments_request:
  "requestOf (getComments e fetch (this, h) slug) = commentsRequest this slug"
  by (simp add: getComments_def getJsonData_def requestOf_def commentsRequest_def Let_def
           split: sum.splits fetched.splits option.splits)

lemma getComments_parsed:
  assumes "fetch (commentsRequest this slug) = Response status txt (Some cs)" and "ok status"
  shows "getComments e fetch (this, h) slug = (commentsRequest this slug, assemble e cs (this, h))"
  using assms by (simp add: getComments_def getJsonData_def commentsRequest_def Let_def)

lemma parsed_dates_valid:
  assumes "validDates cs" and "a \<in> set (newAddrs h cs)"
  shows "timeValue (submitted_at (objs (parsedHeap h cs) a)) \<noteq> None"
proof -
  have "cs ! (a - fresh h) \<in> set cs"
    using newAddrs_D [OF assms(2)] by simp
  then show ?thesis
    using assms by (simp add: validDates_def parsedHeap_new parsed_def)
qed

lemma chronological_sorted:
  assumes "validDates cs"
  shows "chronological (snd (snd (assemble e cs (this, h)))) (filter P (sortedAddrs e h cs))"
proof -
  have "sorted_wrt (\<lambda>a b. notAfter (submitted_at (objs (parsedHeap h cs) a))
                                    (submitted_at (objs (parsedHeap h cs) b)))
          (sortedAddrs e h cs)"
    unfolding sortedAddrs_def
    by (rule sorted_arraySort) (simp add: parsed_dates_valid [OF assms])
  then show ?thesis
    by (simp add: chronological_def assemble_fields sorted_wrt_filter)
qed

lemma ties_sorted:
  assumes "e = MovesOnNegative"
  shows "tiesInInputOrder (snd (snd (assemble e cs (this, h)))) (filter P (sortedAddrs e h cs))"
proof -
  have "sorted_wrt (<) (newAddrs h cs)"
    by (simp add: newAddrs_def)
  then have "sorted_wrt (\<lambda>a b. sameTime (submitted_at (objs (parsedHeap h cs) a))
                                         (submitted_at (objs (parsedHeap h cs) b)) \<longrightarrow> a < b)
               (sortedAddrs MovesOnNegative h cs)"
    unfolding sortedAddrs_def by (rule stable_arraySort)
  then show ?thesis
    by (simp add: assms tiesInInputOrder_def assemble_fields sorted_wrt_filter)
qed

text \<open>
  C1, as amended: for every array of comment records whose \<^verbatim>\<open>submitted_at\<close> values are
  valid dates and whose parent references resolve, the forest that \<open>getComments\<close>
  returns is chronological at every sibling level (the roots, and the children of
  every comment of the array): a comment never precedes a sibling with a smaller
  timestamp. Siblings with equal timestamps are in the order of the file when the
  host's sort moves an item only on a negative comparator result. The comparator
  itself returns 1, never 0, on equal timestamps, so the code leaves the order of
  ties to the host; and it returns 1 both ways when a timestamp is an Invalid Date,
  so the code orders nothing around such a comment.
\<close>

theorem siblings_chronological:
  assumes "fetch (commentsRequest this slug) = Response status txt (Some cs)"
    and "ok status"
    and "validDates cs"
    and "parentsResolve cs"
    and "getComments e fetch (this, h) slug = (rq, res, this', h')"
  shows "\<exists>forest. res = Inr forest
           \<and> chronological h' forest
           \<and> (\<forall>a \<in> set (newAddrs h cs). chronological h' (children (objs h' a)))
           \<and> (e = MovesOnNegative \<longrightarrow>
                 tiesInInputOrder h' forest
                 \<and> (\<forall>a \<in> set (newAddrs h cs). tiesInInputOrder h' (children (objs h' a))))
           \<and> set forest \<subseteq> set (newAddrs h cs)
           \<and> (\<forall>i < length cs. submitted_at (objs h' (fresh h + i)) = submitted_at (cs ! i))"
proof -
  from getComments_parsed [where fetch = fetch, OF assms(1,2), of e h] assms(5)
  have asm: "assemble e cs (this, h) = (res, this', h')"
    by simp
  have res: "res = fst (assemble e cs (this, h))"
    and h': "h' = snd (snd (assemble e cs (this, h)))"
    by (simp_all add: asm)
  note ar = assemble_resolved [OF assms(4), of e this h]
  note cs = chronological_sorted [OF assms(3), of e this h]
  let ?forest = "filter (\<lambda>c. placeIn e this h cs c = None) (sortedAddrs e h cs)"
  have 1: "res = Inr ?forest"
    by (simp add: res ar(1))
  have 2: "chronological h' ?forest"
    unfolding h' by (rule cs)
  have 3: "\<forall>a \<in> set (newAddrs h cs). chronological h' (children (objs h' a))"
    unfolding h' by (simp add: ar(2) cs)
  have 4: "e = MovesOnNegative \<longrightarrow>
             tiesInInputOrder h' ?forest
             \<and> (\<forall>a \<in> set (newAddrs h cs). tiesInInputOrder h' (children (objs h' a)))"
  proof (intro impI conjI ballI)
    assume e: "e = MovesOnNegative"
    show "tiesInInputOrder h' ?forest"
      unfolding h' using e by (rule ties_sorted)
    fix a assume "a \<in> set (newAddrs h cs)"
    then have "children (objs h' a) =
               filter (\<lambda>c. placeIn e this h cs c = Some a) (sortedAddrs e h cs)"
      by (simp add: h' ar(2))
    then show "tiesInInputOrder h' (children (objs h' a))"
      unfolding h' using ties_sorted [OF e, of cs this h] by simp
  qed
  have 5: "set ?forest \<subseteq> set (newAddrs h cs)"
    by (auto simp: set_sortedAddrs)
  have 6: "\<forall>i < length cs. submitted_at (objs h' (fresh h + i)) = submitted_at (cs ! i)"
    unfolding h' by (simp add: assemble_new_fields newAddrs_nth)
  from 1 2 3 4 5 6 show ?thesis by blast
qed

text \<open>
  C2, as amended: for every array of comment records whose parent references resolve,
  and a client whose index holds no key twice (every client does, see
  \<open>constructor_index_distinct\<close> and \<open>getComments_index_distinct\<close> below),
  after \<open>getComments\<close> every id of the array is a key of the index exactly once and
  names a comment of the array with that id; every comment of the array is in exactly
  one place among the root list and the children lists, and it is a root exactly when
  its \<^verbatim>\<open>parent_id\<close> is falsy. When moreover every chain of parent references ends at a
  comment without parent, the nodes of the returned forest are the comments of the
  array, each exactly once, and the forest is no deeper than the array is long.
\<close>

theorem each_comment_in_one_place:
  assumes "fetch (commentsRequest this slug) = Response status txt (Some cs)"
    and "ok status"
    and "parentsResolve cs"
    and "distinct (map fst (commentsHash this))"
    and "getComments e fetch (this, h) slug = (rq, res, this', h')"
  shows "\<exists>forest. res = Inr forest
           \<and> (\<forall>c \<in> set cs.
                 count_list (map fst (commentsHash this')) (comment_id c) = 1
                 \<and> (\<exists>a \<in> set (newAddrs h cs).
                       map_of (commentsHash this') (comment_id c) = Some a
                       \<and> comment_id (objs h' a) = comment_id c))
           \<and> (\<forall>a \<in> set (newAddrs h cs).
                 count_list (forest @ concat (map (\<lambda>p. children (objs h' p)) (newAddrs h cs))) a = 1
                 \<and> (a \<in> set forest \<longleftrightarrow> falsy (parent_id (objs h' a))))
           \<and> (chainsEnd cs \<longrightarrow>
                 mset (forestNodes h' forest (length cs)) = mset (newAddrs h cs)
                 \<and> level h' forest (Suc (length cs)) = [])"
proof -
  from getComments_parsed [where fetch = fetch, OF assms(1,2), of e h] assms(5)
  have asm: "assemble e cs (this, h) = (res, this', h')"
    by simp
  have res: "res = fst (assemble e cs (this, h))"
    and this': "this' = fst (snd (assemble e cs (this, h)))"
    and h': "h' = snd (snd (assemble e cs (this, h)))"
    by (simp_all add: asm)
  note ar = assemble_resolved [OF assms(3), of e this h]
  define S where "S = sortedAddrs e h cs"
  define place where "place = placeIn e this h cs"
  let ?forest = "filter (\<lambda>c. place c = None) S"
  have setS: "set S = set (newAddrs h cs)" and dS: "distinct S"
    by (simp_all add: S_def set_sortedAddrs distinct_sortedAddrs)
  have dN: "distinct (newAddrs h cs)"
    by (simp add: newAddrs_def)
  have idx: "commentsHash this' = indexAfter e this h cs"
    by (simp add: this' assemble_index)
  have ch: "children (objs h' p) = filter (\<lambda>c. place c = Some p) S" if "p \<in> set S" for p
    using that by (simp add: h' ar(2) S_def place_def set_sortedAddrs)
  have closed: "p \<in> set S" if "c \<in> set S" "place c = Some p" for c p
    using placeIn_resolved(2) [OF assms(3), of c h e this p] that
    by (simp add: setS place_def)
  have 1: "res = Inr ?forest"
    by (simp add: res ar(1) S_def place_def)
  have 2: "count_list (map fst (commentsHash this')) (comment_id c) = 1
           \<and> (\<exists>a \<in> set (newAddrs h cs).
                 map_of (commentsHash this') (comment_id c) = Some a
                 \<and> comment_id (objs h' a) = comment_id c)" if c: "c \<in> set cs" for c
  proof
    have "comment_id c \<in> set (map fst (commentsHash this'))"
      using c by (simp add: idx indexAfter_keys)
    moreover have "distinct (map fst (commentsHash this'))"
      unfolding idx using assms(4) by (rule indexAfter_distinct)
    ultimately show "count_list (map fst (commentsHash this')) (comment_id c) = 1"
      by (simp add: count_list_distinct)
    have "comment_id c \<in> comment_id ` set cs" using c by simp
    from indexAfter_hit [OF this, of h e this]
    show "\<exists>a \<in> set (newAddrs h cs).
            map_of (commentsHash this') (comment_id c) = Some a
            \<and> comment_id (objs h' a) = comment_id c"
      unfolding idx h' by (auto simp: assemble_new_fields)
  qed
  have 3: "count_list (?forest @ concat (map (\<lambda>p. children (objs h' p)) (newAddrs h cs))) a = 1
           \<and> (a \<in> set ?forest \<longleftrightarrow> falsy (parent_id (objs h' a)))"
    if a: "a \<in> set (newAddrs h cs)" for a
  proof
    have aS: "a \<in> set S" using a setS by simp
    have "count_list (concat (map (\<lambda>p. children (objs h' p)) (newAddrs h cs))) a =
          sum_list (map (\<lambda>p. count_list (children (objs h' p)) a) (newAddrs h cs))"
      by (simp add: count_list_concat comp_def)
    also have "\<dots> = sum_list (map (\<lambda>p. if a \<in> set S \<and> place a = Some p then 1 else 0)
                                (newAddrs h cs))"
      by (rule arg_cong [where f = sum_list], rule map_cong [OF refl])
         (simp add: ch setS [symmetric] count_list_filter count_list_distinct [OF dS])
    also have "\<dots> = (if a \<in> set S
                     then (case place a of None \<Rightarrow> 0 | Some q \<Rightarrow> count_list (newAddrs h cs) q)
                     else 0)"
      by (rule sum_list_indicator_if)
    also have "\<dots> = (if place a = None then 0 else 1)"
      using aS closed [OF aS] by (auto simp: count_list_distinct [OF dN] setS split: option.splits)
    finally have "count_list (concat (map (\<lambda>p. children (objs h' p)) (newAddrs h cs))) a =
                  (if place a = None then 0 else 1)" .
    moreover have "count_list ?forest a = (if place a = None then 1 else 0)"
      using aS by (simp add: count_list_filter count_list_distinct [OF dS])
    ultimately show "count_list (?forest @ concat (map (\<lambda>p. children (objs h' p)) (newAddrs h cs))) a = 1"
      by simp
    show "a \<in> set ?forest \<longleftrightarrow> falsy (parent_id (objs h' a))"
      using aS a placeIn_resolved(1) [OF assms(3) a, of e this]
      by (simp add: place_def h' assemble_new_fields)
  qed
  have 4: "mset (forestNodes h' ?forest (length cs)) = mset (newAddrs h cs)
           \<and> level h' ?forest (Suc (length cs)) = []" if ce: "chainsEnd cs"
  proof -
    have depth: "\<exists>k \<le> length cs. atDepth place k a" if "a \<in> set S" for a
    proof -
      have a: "a \<in> set (newAddrs h cs)" using that setS by simp
      then have "cs ! (a - fresh h) \<in> set cs"
        using newAddrs_D by blast
      then have "endsWithin cs (length cs) (cs ! (a - fresh h))"
        using ce by (simp add: chainsEnd_def)
      from endsWithin_depth [OF assms(3) a this] show ?thesis
        by (simp add: place_def)
    qed
    from forestNodes_count [OF dS refl ch closed depth]
    show ?thesis
      by (simp add: S_def mset_sortedAddrs)
  qed
  from 1 2 3 4 show ?thesis by blast
qed


text \<open>The index never holds a key twice: not when constructed, not after a call.\<close>

lemma constructor_index_distinct:
  "constructor cfg = Inr this \<Longrightarrow> distinct (map fst (commentsHash this))"
  by (auto simp: constructor_def split: option.splits if_splits)

lemma getComments_index_distinct:
  assumes "distinct (map fst (commentsHash this))"
  shows "distinct (map fst (commentsHash (clientAfter (getComments e fetch (this, h) slug))))"
proof (cases "getJsonData fetch (commentsUrl this slug)")
  case (Pair rq res)
  show ?thesis
  proof (cases res)
    case (Inl err)
    then show ?thesis
      using Pair assms by (simp add: getComments_def clientAfter_def)
  next
    case (Inr cs)
    then show ?thesis
      using Pair assms
      by (simp add: getComments_def clientAfter_def assemble_index indexAfter_distinct)
  qed
qed

section \<open>Witnesses and counterexamples for the claims about getComments\<close>

lemma call_parts:
  "r = (requestOf r, outcomeOf r, clientAfter r, heapAfter r)"
  by (simp add: requestOf_def outcomeOf_def clientAfter_def heapAfter_def)

theorem siblings_chronological_witness:
  "ok 200 \<and> validDates exampleThread \<and> parentsResolve exampleThread
   \<and> outcomeOf exampleCall = Inr [2, 4]
   \<and> chronological (heapAfter exampleCall) [2, 4]
   \<and> tiesInInputOrder (heapAfter exampleCall) [2, 4]
   \<and> children (objs (heapAfter exampleCall) 2) = [1, 0]
   \<and> chronological (heapAfter exampleCall) (children (objs (heapAfter exampleCall) 2))
   \<and> tiesInInputOrder (heapAfter exampleCall) (children (objs (heapAfter exampleCall) 2))"
proof -
  have h1: "exampleServer (commentsRequest exampleClient ''post'') = Response 200 [] (Some exampleThread)"
    by (simp add: exampleServer_def)
  have h2: "ok 200"
    by (simp add: ok_def)
  have h3: "parentsResolve exampleThread"
    by code_simp
  have h4: "getComments MovesOnNegative exampleServer (exampleClient, emptyHeap) ''post'' =
            (requestOf exampleCall, outcomeOf exampleCall, clientAfter exampleCall, heapAfter exampleCall)"
    unfolding exampleCall_def [symmetric] by (rule call_parts)
  have h5: "outcomeOf exampleCall = Inr [2, 4]"
    by code_simp
  have h6: "children (objs (heapAfter exampleCall) 2) = [1, 0]"
    by code_simp
  have h7: "2 \<in> set (newAddrs emptyHeap exampleThread)"
    by code_simp
  have h8: "validDates exampleThread"
    by code_simp
  from siblings_chronological [where fetch = exampleServer, OF h1 h2 h8 h3 h4]
  obtain forest where f: "outcomeOf exampleCall = Inr forest"
    and c1: "chronological (heapAfter exampleCall) forest"
    and c2: "\<forall>a \<in> set (newAddrs emptyHeap exampleThread).
               chronological (heapAfter exampleCall) (children (objs (heapAfter exampleCall) a))"
    and t1: "tiesInInputOrder (heapAfter exampleCall) forest"
    and t2: "\<forall>a \<in> set (newAddrs emptyHeap exampleThread).
               tiesInInputOrder (heapAfter exampleCall) (children (objs (heapAfter exampleCall) a))"
    by blast
  have "forest = [2, 4]"
    using f h5 by simp
  with c1 t1 c2 [rule_format, OF h7] t2 [rule_format, OF h7] h2 h8 h3 h5 h6
  show ?thesis by simp
qed

text \<open>
  C1 as stated fails: the comparator answers 1 for two comments with the same
  timestamp whichever comes first, and on a host that moves an item when
  \<^verbatim>\<open>comparefn(element, item) > 0\<close> the two roots come back in reverse input order.
  It also answers 1 both ways when one of the two dates is invalid: a comment whose
  timestamp is out of the range of a Date stays before a comment of timestamp 5, and
  around a comment whose timestamp does not parse the comment of timestamp 10 stays
  before the comment of timestamp 5, on a host that moves an item only on a negative
  result.
\<close>

theorem ties_counterexample:
  "parentsResolve tieThread
   \<and> compareFn (tieThread ! 0) (tieThread ! 1) = 1
   \<and> compareFn (tieThread ! 1) (tieThread ! 0) = 1
   \<and> outcomeOf tieCall = Inr [1, 0]
   \<and> \<not> tiesInInputOrder (heapAfter tieCall) [1, 0]
   \<and> parentsResolve lateThread
   \<and> compareFn (lateThread ! 0) (lateThread ! 1) = 1
   \<and> compareFn (lateThread ! 1) (lateThread ! 0) = 1
   \<and> outcomeOf lateCall = Inr [0, 1]
   \<and> \<not> chronological (heapAfter lateCall) [0, 1]
   \<and> parentsResolve strayThread
   \<and> outcomeOf strayCall = Inr [0, 1, 2]
   \<and> submitted_at (objs (heapAfter strayCall) 0) = Millis 10
   \<and> submitted_at (objs (heapAfter strayCall) 2) = Millis 5
   \<and> \<not> chronological (heapAfter strayCall) [0, 1, 2]"
  by code_simp

theorem each_comment_in_one_place_witness:
  "ok 200 \<and> parentsResolve exampleThread \<and> chainsEnd exampleThread
   \<and> distinct (map fst (commentsHash exampleClient))
   \<and> outcomeOf exampleCall = Inr [2, 4]
   \<and> count_list (map fst (commentsHash (clientAfter exampleCall))) (comment_id (exampleThread ! 1)) = 1
   \<and> count_list ([2, 4] @ concat (map (\<lambda>p. children (objs (heapAfter exampleCall) p))
                                      (newAddrs emptyHeap exampleThread))) 3 = 1
   \<and> mset (forestNodes (heapAfter exampleCall) [2, 4] (length exampleThread))
       = mset (newAddrs emptyHeap exampleThread)
   \<and> level (heapAfter exampleCall) [2, 4] (Suc (length exampleThread)) = []"
proof -
  have h1: "exampleServer (commentsRequest exampleClient ''post'') = Response 200 [] (Some exampleThread)"
    by (simp add: exampleServer_def)
  have h2: "ok 200"
    by (simp add: ok_def)
  have h3: "parentsResolve exampleThread"
    by code_simp
  have h4: "distinct (map fst (commentsHash exampleClient))"
    by (simp add: exampleClient_def)
  have h5: "getComments MovesOnNegative exampleServer (exampleClient, emptyHeap) ''post'' =
            (requestOf exampleCall, outcomeOf exampleCall, clientAfter exampleCall, heapAfter exampleCall)"
    unfolding exampleCall_def [symmetric] by (rule call_parts)
  have h6: "chainsEnd exampleThread"
    by code_simp
  have h7: "outcomeOf exampleCall = Inr [2, 4]"
    by code_simp
  have h8: "exampleThread ! 1 \<in> set exampleThread"
    by (simp add: exampleThread_def)
  have h9: "3 \<in> set (newAddrs emptyHeap exampleThread)"
    by code_simp
  from each_comment_in_one_place [where fetch = exampleServer, OF h1 h2 h3 h4 h5]
  obtain forest where f: "outcomeOf exampleCall = Inr forest"
    and idx: "\<forall>c \<in> set exampleThread.
                count_list (map fst (commentsHash (clientAfter exampleCall))) (comment_id c) = 1"
    and once: "\<forall>a \<in> set (newAddrs emptyHeap exampleThread).
                count_list (forest @ concat (map (\<lambda>p. children (objs (heapAfter exampleCall) p))
                                               (newAddrs emptyHeap exampleThread))) a = 1"
    and reach: "chainsEnd exampleThread \<longrightarrow>
                mset (forestNodes (heapAfter exampleCall) forest (length exampleThread))
                  = mset (newAddrs emptyHeap exampleThread)
                \<and> level (heapAfter exampleCall) forest (Suc (length exampleThread)) = []"
    by blast
  have "forest = [2, 4]"
    using f h7 by simp
  with idx [rule_format, OF h8] once [rule_format, OF h9] reach [rule_format, OF h6] h2 h3 h4 h6 h7
  show ?thesis by simp
qed

text \<open>
  C2 as stated fails: the parent reference of a comment that names itself resolves,
  yet the comment is not a root and is its own child, so the returned forest is
  empty and the comment is nowhere in it.
\<close>

theorem unreachable_counterexample:
  "parentsResolve selfThread
   \<and> newAddrs emptyHeap selfThread = [0]
   \<and> outcomeOf selfCall = Inr []
   \<and> children (objs (heapAfter selfCall) 0) = [0]
   \<and> forestNodes (heapAfter selfCall) [] (length selfThread) = []"
  by code_simp

text \<open>
  A reply fetched without its parent is pushed into the parent object of the earlier
  call, which keeps its own fields.
\<close>

lemma reply_joins_parent:
  "outcomeOf parentCall = Inr [0]
   \<and> children (objs (heapAfter parentCall) 0) = []
   \<and> \<not> parentsResolve replyBatch
   \<and> outcomeOf replyCall = Inr []
   \<and> children (objs (heapAfter replyCall) 0) = [1]
   \<and> commentOf (objs (heapAfter replyCall) 0) = parentBatch ! 0
   \<and> getCommentById (clientAfter replyCall) ''p'' = Comment 0
   \<and> getCommentById (clientAfter replyCall) ''r'' = Comment 1"
  by code_simp



section \<open>The request of getComments\<close>

lemma commentsUrl_example:
  "commentsUrl exampleClient ''Hello World'' = ''https://api.example.com/static/hello world.json''"
  by code_simp

text \<open>
  C4, as amended: for a client constructed with endpoint "https://api.example.com"
  and cachedFilesURI "static", \<open>getComments "Hello World"\<close> issues one GET request,
  and the URL it hands to the transport is
  "https://api.example.com/static/hello world.json": \<open>cleanSlug\<close> turns slashes into
  underscores, not spaces; the space stays.
\<close>

theorem getComments_hello_world_request:
  "constructor (Some exampleConfig) = Inr exampleClient
   \<and> requestOf (getComments e fetch (exampleClient, h) ''Hello World'')
       = \<lparr>r_method = GET, r_url = ''https://api.example.com/static/hello world.json'',
          r_headers = [], r_body = []\<rparr>"
proof
  show "constructor (Some exampleConfig) = Inr exampleClient"
    by (simp add: constructor_def exampleConfig_def exampleClient_def falsy_def)
  show "requestOf (getComments e fetch (exampleClient, h) ''Hello World'')
       = \<lparr>r_method = GET, r_url = ''https://api.example.com/static/hello world.json'',
          r_headers = [], r_body = []\<rparr>"
    by (simp only: getComments_request commentsRequest_def commentsUrl_example)
qed

text \<open>C4 as stated fails: the URL requested is not the one with the underscore.\<close>

theorem hello_world_counterexample:
  "r_url (requestOf (getComments MovesOnNegative offline (exampleClient, emptyHeap) ''Hello World''))
     \<noteq> ''https://api.example.com/static/hello_world.json''"
  by code_simp

section \<open>The mutating operations\<close>

lemma ajax_settles:
  "fetch (fst (ajax fetch url m body)) = Response status txt json \<Longrightarrow>
     snd (ajax fetch url m body) = settles_spec status txt"
  by (simp add: ajax_def Let_def settles_spec_def ok_def)

text \<open>
  C9: for each of \<open>postComment\<close>, \<open>updateComment\<close>, \<open>deleteComment\<close>, \<open>validateComment\<close> and
  \<open>updateNewCommentsSubscription\<close>, when the response to the request it issues has a
  status outside 200-299 the promise rejects with the body text of the response, and
  when the status is inside 200-299 it resolves with no payload.
\<close>

theorem mutating_calls_settle:
  "(fetch (fst (postComment fetch this slug comment name email parentId)) = Response status txt json
      \<longrightarrow> snd (postComment fetch this slug comment name email parentId) = settles_spec status txt)
   \<and> (fetch (fst (updateComment fetch this commentId secret comment)) = Response status txt json
      \<longrightarrow> snd (updateComment fetch this commentId secret comment) = settles_spec status txt)
   \<and> (fetch (fst (deleteComment fetch this commentId secret)) = Response status txt json
      \<longrightarrow> snd (deleteComment fetch this commentId secret) = settles_spec status txt)
   \<and> (fetch (fst (validateComment fetch this commentId secret)) = Response status txt json
      \<longrightarrow> snd (validateComment fetch this commentId secret) = settles_spec status txt)
   \<and> (fetch (fst (updateNewCommentsSubscription fetch this articleId userId secret subscribe))
        = Response status txt json
      \<longrightarrow> snd (updateNewCommentsSubscription fetch this articleId userId secret subscribe)
          = settles_spec status txt)"
  unfolding postComment_def updateComment_def deleteComment_def validateComment_def
    updateNewCommentsSubscription_def
  by (intro conjI impI) (erule ajax_settles)+

theorem mutating_calls_settle_witness:
  "serverError (fst (postComment serverError exampleClient ''post'' ''hi'' ''Ann'' ''ann@example.com'' JsUndefined))
     = Response 500 ''comment is empty'' None
   \<and> snd (postComment serverError exampleClient ''post'' ''hi'' ''Ann'' ''ann@example.com'' JsUndefined)
       = Inl (BodyText ''comment is empty'')
   \<and> snd (updateComment serverError exampleClient ''7'' ''s3cret'' ''hi'') = Inl (BodyText ''comment is empty'')
   \<and> snd (deleteComment serverError exampleClient ''7'' ''s3cret'') = Inl (BodyText ''comment is empty'')
   \<and> snd (validateComment serverError exampleClient ''7'' ''s3cret'') = Inl (BodyText ''comment is empty'')
   \<and> snd (updateNewCommentsSubscription serverError exampleClient ''1'' ''2'' ''s3cret'' True)
       = Inl (BodyText ''comment is empty'')
   \<and> snd (deleteComment accepted exampleClient ''7'' ''s3cret'') = Inr ()"
proof -
  have e: "serverError rq = Response 500 ''comment is empty'' None" for rq
    by (simp add: serverError_def)
  have a: "accepted rq = Response 204 [] None" for rq
    by (simp add: accepted_def)
  have s: "settles_spec 500 ''comment is empty'' = Inl (BodyText ''comment is empty'')"
    "settles_spec 204 [] = Inr ()"
    by (simp_all add: settles_spec_def)
  from mutating_calls_settle [of serverError exampleClient "''post''" "''hi''" "''Ann''"
         "''ann@example.com''" JsUndefined 500 "''comment is empty''" None "''7''" "''s3cret''"
         "''1''" "''2''" True]
       mutating_calls_settle [of accepted exampleClient _ _ _ _ _ 204 "[]" None "''7''" "''s3cret''"]
  show ?thesis
    by (simp add: e a s)
qed

end
